theory Spec2Isabelle
  imports Complex_Main
begin

section \<open>JavaScript values\<close>

text \<open>
  The functions below are those of \<^verbatim>\<open>calculations.ts\<close>. Reading a property of
  \<^verbatim>\<open>undefined\<close> raises \<open>TypeError\<close>, and \<^verbatim>\<open>new Array(n)\<close> raises \<open>RangeError\<close> when \<open>n\<close> is
  \<open>2 ^ 32\<close> or more; a function that can raise returns \<open>js_error + 'a\<close>. A function with a
  loop that may run forever returns \<open>(js_error + 'a) option\<close> (or \<open>'a option\<close> when it cannot
  raise), where \<open>None\<close> is a call that does not return. A JavaScript object used as
  \<^verbatim>\<open>Record<string, T>\<close> is an association list in insertion order: writing an existing key
  replaces its value in place, writing a new key appends it; \<open>map_of\<close> reads a key.
\<close>

datatype js_error = TypeError | RangeError

type_synonym 'a run = "(js_error + 'a) option"

type_synonym 'a obj = "(string \<times> 'a) list"

fun obj_set :: "'a obj \<Rightarrow> string \<Rightarrow> 'a \<Rightarrow> 'a obj" where
  "obj_set [] k v = [(k, v)]"
| "obj_set ((k', v') # kvs) k v =
     (if k' = k then (k, v) # kvs else (k', v') # obj_set kvs k v)"

text \<open>
  \<^verbatim>\<open>i++\<close> on a loop counter. The counter is a double that holds a natural number: below
  \<open>2 ^ 53\<close> the increment gives the successor, and at \<open>2 ^ 53\<close> the sum \<open>2 ^ 53 + 1\<close> rounds
  back to \<open>2 ^ 53\<close>, so the counter stops growing.
\<close>

definition increment :: "nat \<Rightarrow> nat" where
  "increment i = (if int i < 2 ^ 53 then Suc i else i)"

section \<open>Decision tree evaluator\<close>

text \<open>
  A \<^verbatim>\<open>DecisionNode\<close>. The optional numeric fields are \<open>real option\<close>; the source reads
  them as \<^verbatim>\<open>field || 0\<close>. An absent \<^verbatim>\<open>children\<close> field behaves in every function below
  exactly as the empty array (each function tests \<^verbatim>\<open>!node.children\<close> together with, or
  before, the emptiness of the array), so \<open>n_children\<close> is a list. Numbers are real numbers.
\<close>

datatype node_type = Decision | Chance | Outcome

datatype decision_node =
  DecisionNode (n_id: string) (n_name: string) (n_type: node_type)
    (n_probability: "real option") (n_cost: "real option") (n_value: "real option")
    (n_children: "decision_node list")

definition orZero :: "real option \<Rightarrow> real" where
  "orZero v = (case v of None \<Rightarrow> 0 | Some x \<Rightarrow> x)"

text \<open>\<^verbatim>\<open>Math.max(...xs)\<close>; the source only calls it on a non-empty array.\<close>

fun maxOf :: "real list \<Rightarrow> real" where
  "maxOf [] = 0"
| "maxOf (x # xs) = fold max xs x"

fun calculateExpectedValue :: "decision_node \<Rightarrow> real" where
  "calculateExpectedValue (DecisionNode i nm ty p c v children) =
     (if ty = Outcome then orZero v - orZero c
      else if children = [] then 0
      else if ty = Decision then maxOf (map calculateExpectedValue children)
      else if ty = Chance then
        fold (\<lambda>child sum. sum + orZero (n_probability child) * calculateExpectedValue child)
          children 0
      else 0)"

text \<open>
  \<^verbatim>\<open>child.name.toLowerCase().includes(pattern)\<close>, on ASCII letters.
\<close>

definition toLowerCase :: "string \<Rightarrow> string" where
  "toLowerCase s =
     map (\<lambda>c. let n = (of_char c :: nat) in if 65 \<le> n \<and> n \<le> 90 then char_of (n + 32) else c) s"

fun startsWith :: "string \<Rightarrow> string \<Rightarrow> bool" where
  "startsWith s [] = True"
| "startsWith [] (p # ps) = False"
| "startsWith (c # cs) (p # ps) = (c = p \<and> startsWith cs ps)"

fun includesStr :: "string \<Rightarrow> string \<Rightarrow> bool" where
  "includesStr [] pat = (pat = [])"
| "includesStr (c # cs) pat = (startsWith (c # cs) pat \<or> includesStr cs pat)"

record risk_metrics =
  successProbability :: real
  failureProbability :: real
  roi :: real
  avgCost :: real
  worstCase :: real
  riskLevel :: string

definition calculateRiskMetrics :: "decision_node \<Rightarrow> risk_metrics option" where
  "calculateRiskMetrics node =
     (case find (\<lambda>child. includesStr (toLowerCase (n_name child)) ''success'') (n_children node) of
        None \<Rightarrow> None
      | Some successOutcome \<Rightarrow>
         (case find (\<lambda>child. includesStr (toLowerCase (n_name child)) ''failure'') (n_children node) of
            None \<Rightarrow> None
          | Some failureOutcome \<Rightarrow>
              let sp = orZero (n_probability successOutcome);
                  fp = orZero (n_probability failureOutcome);
                  ac = sp * orZero (n_cost successOutcome) + fp * orZero (n_cost failureOutcome);
                  av = sp * orZero (n_value successOutcome) + fp * orZero (n_value failureOutcome)
              in Some \<lparr>successProbability = sp,
                       failureProbability = fp,
                       roi = (if ac > 0 then (av - ac) / ac * 100 else 0),
                       avgCost = ac,
                       worstCase = min (orZero (n_value successOutcome) - orZero (n_cost successOutcome))
                                       (orZero (n_value failureOutcome) - orZero (n_cost failureOutcome)),
                       riskLevel = (if fp > 0.3 then ''High''
                                    else if fp > 0.15 then ''Medium'' else ''Low'')\<rparr>))"

text \<open>
  The entries of \<^verbatim>\<open>reasoning\<close> are template strings; each constructor stands for one
  template and carries the values interpolated into it.
\<close>

datatype reason =
  CloseValues real real
| BetterRiskAdjusted string
| HigherSuccess real real
| BetterROI real real
| LowerRisk string string
| BestBalance string
| ClearAdvantage real

record risk_analysis =
  bestOption :: string
  ra_riskLevel :: string
  reasoning :: "reason list"

record path_result =
  path :: "string list"
  riskAnalysis :: "risk_analysis option"

record child_analysis =
  ca_name :: string
  ca_expectedValue :: real
  ca_riskMetrics :: "risk_metrics option"
  ca_path :: path_result

text \<open>
  \<^verbatim>\<open>node.children.map(child => ...)\<close> evaluates the children in order and stops at the
  first one that raises.
\<close>

fun sequence :: "(js_error + 'a) list \<Rightarrow> js_error + 'a list" where
  "sequence [] = Inr []"
| "sequence (Inl e # rest) = Inl e"
| "sequence (Inr x # rest) = (case sequence rest of Inl e \<Rightarrow> Inl e | Inr xs \<Rightarrow> Inr (x # xs))"

definition riskScore :: "risk_metrics \<Rightarrow> real" where
  "riskScore m =
     successProbability m * 30
     + (if riskLevel m = ''Low'' then 25 else if riskLevel m = ''Medium'' then 15 else 5)
     + min (roi m / 10) 20
     + max 0 (worstCase m / 10000)"

text \<open>
  The part of the decision branch after the sort: \<open>topOption\<close> and \<open>secondOption\<close> are
  \<^verbatim>\<open>childAnalysis[0]\<close> and \<^verbatim>\<open>childAnalysis[1]\<close>.
\<close>

definition chooseOption :: "child_analysis \<Rightarrow> child_analysis \<Rightarrow> path_result" where
  "chooseOption topOption secondOption =
     (let valueDifference = \<bar>ca_expectedValue topOption - ca_expectedValue secondOption\<bar>;
          averageValue = (ca_expectedValue topOption + ca_expectedValue secondOption) / 2;
          percentageDifference = (if averageValue > 0 then valueDifference / averageValue * 100 else 0);
          (bestOption, reasoning) =
            (case (ca_riskMetrics topOption, ca_riskMetrics secondOption) of
               (Some tm, Some sm) \<Rightarrow>
                 if percentageDifference < 5 then
                   (if riskScore sm > riskScore tm
                    then (secondOption,
                          [CloseValues (ca_expectedValue topOption) (ca_expectedValue secondOption),
                           BetterRiskAdjusted (ca_name secondOption),
                           HigherSuccess (successProbability sm * 100) (successProbability tm * 100)]
                          @ (if roi sm > roi tm * 1.5 then [BetterROI (roi sm) (roi tm)] else [])
                          @ (if riskLevel sm \<noteq> riskLevel tm
                             then [LowerRisk (riskLevel sm) (riskLevel tm)] else []))
                    else (topOption,
                          [CloseValues (ca_expectedValue topOption) (ca_expectedValue secondOption),
                           BestBalance (ca_name topOption)]))
                 else (topOption, [ClearAdvantage (ca_expectedValue topOption)])
             | _ \<Rightarrow> (topOption, [ClearAdvantage (ca_expectedValue topOption)]))
      in \<lparr>path = path (ca_path bestOption),
          riskAnalysis = Some \<lparr>bestOption = ca_name bestOption,
                               ra_riskLevel = (case ca_riskMetrics bestOption of
                                                 None \<Rightarrow> ''Unknown'' | Some m \<Rightarrow> riskLevel m),
                               reasoning = reasoning\<rparr>\<rparr>)"

text \<open>
  \<^verbatim>\<open>node.children.reduce((best, current) => ... ? current : best)\<close> without an initial
  value: the fold starts from the first child.
\<close>

fun mostLikely :: "decision_node list \<Rightarrow> decision_node option" where
  "mostLikely [] = None"
| "mostLikely (c # cs) =
     Some (fold (\<lambda>current best.
                   if orZero (n_probability current) > orZero (n_probability best)
                   then current else best) cs c)"

lemma mostLikely_mem: "mostLikely cs = Some c \<Longrightarrow> c \<in> set cs"
proof (cases cs)
  case Nil
  then show "mostLikely cs = Some c \<Longrightarrow> c \<in> set cs" by simp
next
  case (Cons d ds)
  have "fold (\<lambda>current best.
                   if orZero (n_probability current) > orZero (n_probability best)
                   then current else best) ds b \<in> insert b (set ds)" for b
    by (induction ds arbitrary: b) auto
  with Cons show "mostLikely cs = Some c \<Longrightarrow> c \<in> set cs" by auto
qed

text \<open>
  The sort \<^verbatim>\<open>childAnalysis.sort((a, b) => b.expectedValue - a.expectedValue)\<close> is stable
  and descending, as \<open>sort_key\<close> on the negated key is. Reading
  \<^verbatim>\<open>secondOption.expectedValue\<close> when \<^verbatim>\<open>childAnalysis[1]\<close> is \<^verbatim>\<open>undefined\<close> raises.
\<close>

function findBestPathWithRiskAnalysis ::
  "decision_node \<Rightarrow> string list \<Rightarrow> js_error + path_result" where
  "findBestPathWithRiskAnalysis node currentPath =
     (let newPath = currentPath @ [n_name node] in
      if n_type node = Outcome \<or> n_children node = [] then
        Inr \<lparr>path = newPath, riskAnalysis = None\<rparr>
      else if n_type node = Decision then
        (case sequence (map (\<lambda>child.
                 case findBestPathWithRiskAnalysis child newPath of
                   Inl e \<Rightarrow> Inl e
                 | Inr p \<Rightarrow> Inr \<lparr>ca_name = n_name child,
                                  ca_expectedValue = calculateExpectedValue child,
                                  ca_riskMetrics = calculateRiskMetrics child,
                                  ca_path = p\<rparr>) (n_children node)) of
           Inl e \<Rightarrow> Inl e
         | Inr childAnalysis \<Rightarrow>
            (case sort_key (\<lambda>a. - ca_expectedValue a) childAnalysis of
               topOption # secondOption # _ \<Rightarrow> Inr (chooseOption topOption secondOption)
             | _ \<Rightarrow> Inl TypeError))
      else
        (case mostLikely (n_children node) of
           None \<Rightarrow> Inl TypeError
         | Some mostLikelyChild \<Rightarrow> findBestPathWithRiskAnalysis mostLikelyChild newPath))"
  by pat_completeness auto
termination
proof (relation "measure (\<lambda>(node, p). size node)", goal_cases)
  case 1
  then show ?case by simp
next
  case (2 node currentPath newPath child)
  then show ?case
    by (cases node) (auto simp: less_Suc_eq_le size_list_estimation')
next
  case (3 node currentPath newPath child)
  then have "child \<in> set (n_children node)" by (simp add: mostLikely_mem)
  then show ?case
    by (cases node) (auto simp: less_Suc_eq_le size_list_estimation')
qed

declare findBestPathWithRiskAnalysis.simps [simp del]

record decision_analysis_result =
  expectedValue :: real
  bestPath :: "string list"
  da_riskAnalysis :: "risk_analysis option"

definition analyzeDecisionTree :: "decision_node \<Rightarrow> js_error + decision_analysis_result" where
  "analyzeDecisionTree rootNode =
     (case findBestPathWithRiskAnalysis rootNode [] of
        Inl e \<Rightarrow> Inl e
      | Inr analysis \<Rightarrow>
          Inr \<lparr>expectedValue = calculateExpectedValue rootNode,
               bestPath = path analysis,
               da_riskAnalysis = riskAnalysis analysis\<rparr>)"


section \<open>Resource scheduler\<close>

text \<open>
  Periods, durations and the horizon are natural numbers; amounts, capacities, rates and
  availability multipliers are real numbers (the scheduler only adds, multiplies and
  compares them). In the source the periods are doubles. Two effects of a long horizon are
  modelled: the allocation of the utilization arrays, which raises for \<open>2 ^ 32\<close> periods or
  more (\<open>initUtilization\<close>), and the loop counter of \<open>scheduleTask\<close>, which stops growing at
  \<open>2 ^ 53\<close>. Sums and differences of periods are exact in the model; the source rounds them
  to doubles, which changes a result only if a task ends after period \<open>2 ^ 53\<close>.
\<close>

record requirement =
  resourceId :: string
  amount :: real

record task =
  task_id :: string
  task_name :: string
  duration :: nat
  requiredResources :: "requirement list"
  prerequisites :: "string list"
  priority :: real

record resource =
  res_id :: string
  res_name :: string
  res_type :: string
  maxCapacity :: real
  hourlyRate :: real
  availability :: "real list"

record schedule_entry =
  taskId :: string
  startPeriod :: nat
  endPeriod :: nat
  assignedResources :: "real obj"

record schedule_result =
  schedule :: "schedule_entry list"
  resourceUtilization :: "real list obj"
  totalCost :: real
  projectDuration :: nat
  conflicts :: "string list"

subsection \<open>topologicalSort\<close>

text \<open>
  The closure \<^verbatim>\<open>visit\<close> mutates three variables of \<^verbatim>\<open>topologicalSort\<close>: the sets
  \<^verbatim>\<open>visited\<close> and \<^verbatim>\<open>visiting\<close> and the array \<^verbatim>\<open>result\<close>. They are threaded through
  the recursion as one state. \<open>visit_each\<close> is \<^verbatim>\<open>task.prerequisites.forEach(visit)\<close>.
\<close>

record sort_state =
  visited :: "string set"
  visiting :: "string set"
  result :: "task list"

function visit :: "task list \<Rightarrow> string \<Rightarrow> sort_state \<Rightarrow> sort_state"
  and visit_each :: "task list \<Rightarrow> string list \<Rightarrow> sort_state \<Rightarrow> sort_state"
where
  "visit tasks tid s =
     (if tid \<in> visiting s then s
      else if tid \<in> visited s then s
      else
        let s1 = s\<lparr>visiting := insert tid (visiting s)\<rparr>;
            s2 = (case find (\<lambda>t. task_id t = tid) tasks of
                    None \<Rightarrow> s1
                  | Some task \<Rightarrow>
                      let s' = visit_each tasks (prerequisites task) s1
                      in s'\<lparr>result := result s' @ [task],
                            visited := insert tid (visited s')\<rparr>)
        in s2\<lparr>visiting := visiting s2 - {tid}\<rparr>)"
| "visit_each tasks [] s = s"
| "visit_each tasks (prereq # rest) s = visit_each tasks rest (visit tasks prereq s)"
  by pat_completeness auto

lemma visiting_restored:
  "visit_visit_each_dom (Inl (tasks, tid, s)) \<Longrightarrow> visiting (visit tasks tid s) = visiting s"
  "visit_visit_each_dom (Inr (tasks, ps, s)) \<Longrightarrow> visiting (visit_each tasks ps s) = visiting s"
proof (induction tasks tid s and tasks ps s rule: visit_visit_each.pinduct)
  case (1 tasks tid s)
  then show ?case
    by (auto simp: visit.psimps Let_def split: option.splits)
next
  case (2 tasks s)
  then show ?case by (simp add: visit_each.psimps)
next
  case (3 tasks prereq rest s)
  then show ?case by (simp add: visit_each.psimps)
qed

lemma find_Some_mem: "find P xs = Some x \<Longrightarrow> x \<in> set xs \<and> P x"
  by (induction xs) (auto split: if_splits)

lemma visit_total: "All visit_visit_each_dom"
proof (relation "measures
    [\<lambda>x. case x of
       Inl (tasks, tid, s) \<Rightarrow> card (task_id ` set tasks - visiting s)
     | Inr (tasks, ps, s) \<Rightarrow> card (task_id ` set tasks - visiting s),
     \<lambda>x. case x of Inl _ \<Rightarrow> 0 | Inr (tasks, ps, s) \<Rightarrow> Suc (length ps)]", goal_cases)
  case 1
  then show ?case by simp
next
  case (2 tasks tid s s1 task)
  then have "tid \<in> task_id ` set tasks - visiting s"
    using find_Some_mem[of "\<lambda>t. task_id t = tid" tasks task] by auto
  then have "card (task_id ` set tasks - insert tid (visiting s))
           < card (task_id ` set tasks - visiting s)"
    by (metis Diff_insert card_Diff1_less finite_Diff finite_imageI finite_set)
  with 2 show ?case by simp
next
  case (3 tasks prereq rest s)
  then show ?case by simp
next
  case (4 tasks prereq rest s)
  then show ?case by (simp add: visiting_restored)
qed

termination visit
  by (rule visit_total)

declare visit.simps [simp del]

definition topologicalSort :: "task list \<Rightarrow> task list" where
  "topologicalSort tasks =
     result (visit_each tasks (map task_id tasks)
               \<lparr>visited = {}, visiting = {}, result = []\<rparr>)"

subsection \<open>getEarliestStartTime\<close>

definition getEarliestStartTime :: "task \<Rightarrow> schedule_entry list \<Rightarrow> nat" where
  "getEarliestStartTime task sched =
     (if prerequisites task = [] then 0
      else fold (\<lambda>prereqId earliestStart.
                   case find (\<lambda>s. taskId s = prereqId) sched of
                     None \<Rightarrow> earliestStart
                   | Some prereqSchedule \<Rightarrow> max earliestStart (endPeriod prereqSchedule))
             (prerequisites task) 0)"

subsection \<open>scheduleTask\<close>

text \<open>
  \<^verbatim>\<open>resourceUtilization[resource.id][period] || 0\<close>: a read past the end of the array is
  \<^verbatim>\<open>undefined\<close> and becomes 0.
\<close>

definition currentUtilization :: "real list \<Rightarrow> nat \<Rightarrow> real" where
  "currentUtilization arr period = (if period < length arr then arr ! period else 0)"

text \<open>
  \<^verbatim>\<open>resource.maxCapacity * (resource.availability[period % resource.availability.length] || 1)\<close>.
  For an empty availability array the index is \<^verbatim>\<open>NaN\<close>, the read is \<^verbatim>\<open>undefined\<close> and the
  multiplier is 1. The operator \<^verbatim>\<open>||\<close> also replaces the multiplier 0 by 1, since 0 is falsy.
\<close>

definition availabilityOr1 :: "resource \<Rightarrow> nat \<Rightarrow> real" where
  "availabilityOr1 r period =
     (if availability r = [] then 1
      else let a = availability r ! (period mod length (availability r))
           in if a = 0 then 1 else a)"

definition availableCapacity :: "resource \<Rightarrow> nat \<Rightarrow> real" where
  "availableCapacity r period = maxCapacity r * availabilityOr1 r period"

text \<open>
  The inner loop over \<open>period\<close> in \<open>[start, start + duration)\<close>. The array of the resource
  is read only when the loop body runs; if the utilization object has no entry for the
  resource, that read raises.
\<close>

definition periodsAvailable ::
  "real list obj \<Rightarrow> resource \<Rightarrow> real \<Rightarrow> nat \<Rightarrow> nat \<Rightarrow> js_error + bool" where
  "periodsAvailable util r amt start dur =
     (if dur = 0 then Inr True
      else case map_of util (res_id r) of
             None \<Rightarrow> Inl TypeError
           | Some arr \<Rightarrow>
               Inr (list_all (\<lambda>period. \<not> (currentUtilization arr period + amt
                                            > availableCapacity r period))
                      [start ..< start + dur]))"

text \<open>
  The loop over \<^verbatim>\<open>task.requiredResources\<close> for one candidate start. \<open>Inr None\<close> is
  \<^verbatim>\<open>canSchedule = false\<close> (resource not found, or insufficient capacity), \<open>Inr (Some a)\<close>
  is success with the assigned resources \<open>a\<close>.
\<close>

fun checkRequirements ::
  "resource list \<Rightarrow> real list obj \<Rightarrow> nat \<Rightarrow> nat \<Rightarrow> requirement list \<Rightarrow> real obj
     \<Rightarrow> js_error + real obj option" where
  "checkRequirements resources util start dur [] assigned = Inr (Some assigned)"
| "checkRequirements resources util start dur (req # reqs) assigned =
     (case find (\<lambda>r. res_id r = resourceId req) resources of
        None \<Rightarrow> Inr None
      | Some r \<Rightarrow>
          (case periodsAvailable util r (amount req) start dur of
             Inl e \<Rightarrow> Inl e
           | Inr available \<Rightarrow>
               if available
               then checkRequirements resources util start dur reqs
                      (obj_set assigned (resourceId req) (amount req))
               else Inr None))"

record placement =
  p_startPeriod :: int
  p_assignedResources :: "real obj"
  p_conflicts :: "string list"

text \<open>
  The outer loop
  \<^verbatim>\<open>for (let start = earliestStart; start <= maxPeriods - task.duration; start++)\<close>.
  Nothing that the loop reads changes between two iterations, so once the counter has
  stopped growing the loop does not end: the result is \<open>None\<close>.
\<close>

partial_function (option) scheduleTask ::
  "task \<Rightarrow> resource list \<Rightarrow> real list obj \<Rightarrow> nat \<Rightarrow> nat \<Rightarrow> placement run" where
  "scheduleTask task resources util start maxPeriods =
     (if start + duration task \<le> maxPeriods then
        (case checkRequirements resources util start (duration task)
                (requiredResources task) [] of
           Inl e \<Rightarrow> Some (Inl e)
         | Inr (Some assigned) \<Rightarrow>
             Some (Inr \<lparr>p_startPeriod = int start, p_assignedResources = assigned,
                        p_conflicts = []\<rparr>)
         | Inr None \<Rightarrow> scheduleTask task resources util (increment start) maxPeriods)
      else Some (Inr \<lparr>p_startPeriod = -1, p_assignedResources = [], p_conflicts = []\<rparr>))"

declare scheduleTask.simps [code]

subsection \<open>optimizeResourceAllocation\<close>

text \<open>
  \<^verbatim>\<open>resourceUtilization[resource.id] = new Array(maxPeriods).fill(0)\<close> for each resource.
  The arrays have the same length: with at least one resource and a length of \<open>2 ^ 32\<close> or
  more the first allocation raises \<open>RangeError\<close>.
\<close>

definition initUtilization :: "resource list \<Rightarrow> nat \<Rightarrow> js_error + real list obj" where
  "initUtilization resources maxPeriods =
     (if resources \<noteq> [] \<and> 2 ^ 32 \<le> int maxPeriods then Inl RangeError
      else Inr (fold (\<lambda>r util. obj_set util (res_id r) (replicate maxPeriods 0)) resources []))"

definition commitOne :: "nat \<Rightarrow> string \<times> real \<Rightarrow> real list obj \<Rightarrow> real list obj" where
  "commitOne period = (\<lambda>(rid, amt) util.
     case map_of util rid of
       None \<Rightarrow> util
     | Some arr \<Rightarrow>
         if period < length arr then obj_set util rid (arr[period := arr ! period + amt])
         else util)"

definition commitUtilization ::
  "real obj \<Rightarrow> nat \<Rightarrow> nat \<Rightarrow> real list obj \<Rightarrow> real list obj" where
  "commitUtilization assigned start dur util =
     fold (\<lambda>period u. fold (commitOne period) assigned u) [start ..< start + dur] util"

record sched_state =
  st_schedule :: "schedule_entry list"
  st_utilization :: "real list obj"
  st_conflicts :: "string list"

definition cannotSchedule :: "task \<Rightarrow> string" where
  "cannotSchedule task = ''Cannot schedule task '' @ task_name task @ '' - insufficient resources''"

text \<open>One iteration of \<^verbatim>\<open>for (const task of sortedTasks)\<close>.\<close>

definition scheduleStep ::
  "resource list \<Rightarrow> nat \<Rightarrow> task \<Rightarrow> sched_state \<Rightarrow> sched_state run" where
  "scheduleStep resources maxPeriods task st =
     (let earliestStart = getEarliestStartTime task (st_schedule st) in
      case scheduleTask task resources (st_utilization st) earliestStart maxPeriods of
        None \<Rightarrow> None
      | Some (Inl e) \<Rightarrow> Some (Inl e)
      | Some (Inr pl) \<Rightarrow>
          if p_startPeriod pl = -1
          then Some (Inr (st\<lparr>st_conflicts := st_conflicts st @ [cannotSchedule task]\<rparr>))
          else
            let start = nat (p_startPeriod pl) in
            Some (Inr \<lparr>st_schedule = st_schedule st @
                          [\<lparr>taskId = task_id task, startPeriod = start,
                            endPeriod = start + duration task,
                            assignedResources = p_assignedResources pl\<rparr>],
                       st_utilization = commitUtilization (p_assignedResources pl) start
                                          (duration task) (st_utilization st),
                       st_conflicts = st_conflicts st @ p_conflicts pl\<rparr>))"

fun scheduleAll ::
  "resource list \<Rightarrow> nat \<Rightarrow> task list \<Rightarrow> sched_state \<Rightarrow> sched_state run" where
  "scheduleAll resources maxPeriods [] st = Some (Inr st)"
| "scheduleAll resources maxPeriods (task # rest) st =
     (case scheduleStep resources maxPeriods task st of
        None \<Rightarrow> None
      | Some (Inl e) \<Rightarrow> Some (Inl e)
      | Some (Inr st') \<Rightarrow> scheduleAll resources maxPeriods rest st')"

definition entryCost :: "resource list \<Rightarrow> schedule_entry \<Rightarrow> real \<Rightarrow> real" where
  "entryCost resources item cost =
     fold (\<lambda>(rid, amt) c.
             case find (\<lambda>r. res_id r = rid) resources of
               None \<Rightarrow> c
             | Some r \<Rightarrow> c + amt * hourlyRate r * real (endPeriod item - startPeriod item))
       (assignedResources item) cost"

definition orDefault :: "nat option \<Rightarrow> nat \<Rightarrow> nat" where
  "orDefault v d = (case v of None \<Rightarrow> d | Some n \<Rightarrow> if n = 0 then d else n)"

definition optimizeResourceAllocation ::
  "task list \<Rightarrow> resource list \<Rightarrow> nat option \<Rightarrow> schedule_result run" where
  "optimizeResourceAllocation tasks resources projectDeadline =
     (let sortedTasks = topologicalSort tasks;
          maxPeriods = orDefault projectDeadline 100
      in case initUtilization resources maxPeriods of
           Inl e \<Rightarrow> Some (Inl e)
         | Inr util0 \<Rightarrow>
             (case scheduleAll resources maxPeriods sortedTasks
                     \<lparr>st_schedule = [], st_utilization = util0, st_conflicts = []\<rparr> of
                None \<Rightarrow> None
              | Some (Inl e) \<Rightarrow> Some (Inl e)
              | Some (Inr st) \<Rightarrow>
                  Some (Inr \<lparr>schedule = st_schedule st,
                             resourceUtilization = st_utilization st,
                             totalCost = fold (entryCost resources) (st_schedule st) 0,
                             projectDuration =
                               fold (\<lambda>item d. max d (endPeriod item)) (st_schedule st) 0,
                             conflicts = st_conflicts st\<rparr>)))"

subsection \<open>performScenarioAnalysis\<close>

record scenario_parameters =
  resourceMultiplier :: real
  budgetConstraint :: "real option"
  timeConstraint :: "nat option"
  qualityRequirement :: "real option"

record scenario_metrics =
  efficiency :: real
  sm_riskLevel :: real

record scenario_outcome =
  so_scenario :: scenario_parameters
  so_result :: schedule_result
  so_metrics :: scenario_metrics

definition runScenario ::
  "task list \<Rightarrow> resource list \<Rightarrow> scenario_parameters \<Rightarrow> scenario_outcome run" where
  "runScenario baseTasks baseResources scenario =
     (let adjustedResources =
            map (\<lambda>r. r\<lparr>maxCapacity := maxCapacity r * resourceMultiplier scenario\<rparr>)
              baseResources
      in case optimizeResourceAllocation baseTasks adjustedResources (timeConstraint scenario) of
           None \<Rightarrow> None
         | Some (Inl e) \<Rightarrow> Some (Inl e)
         | Some (Inr res) \<Rightarrow>
             Some (Inr \<lparr>so_scenario = scenario,
                        so_result = res,
                        so_metrics =
                          \<lparr>efficiency = (if totalCost res > 0
                                          then real (projectDuration res) / totalCost res * 1000
                                          else 0),
                           sm_riskLevel = real (length (conflicts res))
                                          / real (max 1 (length baseTasks))\<rparr>\<rparr>))"

fun performScenarioAnalysis ::
  "task list \<Rightarrow> resource list \<Rightarrow> scenario_parameters list \<Rightarrow> scenario_outcome list run" where
  "performScenarioAnalysis baseTasks baseResources [] = Some (Inr [])"
| "performScenarioAnalysis baseTasks baseResources (scenario # rest) =
     (case runScenario baseTasks baseResources scenario of
        None \<Rightarrow> None
      | Some (Inl e) \<Rightarrow> Some (Inl e)
      | Some (Inr out) \<Rightarrow>
          (case performScenarioAnalysis baseTasks baseResources rest of
             None \<Rightarrow> None
           | Some (Inl e) \<Rightarrow> Some (Inl e)
           | Some (Inr outs) \<Rightarrow> Some (Inr (out # outs))))"

section \<open>Numbers with exact finite arithmetic\<close>










subsection \<open>calculateRegressionEstimation\<close>








section \<open>IEEE 754 double precision\<close>

text \<open>
  The Monte Carlo simulation accumulates sums, and what it returns depends on how each
  operation rounds. Its numbers are doubles: \<open>Fin x\<close> is a finite double with the rational
  value \<open>x\<close>, and every operation rounds the exact result to the nearest double, ties to
  even (\<open>round_double\<close>): 53 significant bits, exponents from \<open>-1022\<close> (below it the
  subnormal spacing \<open>2 powi -1074\<close>) to 1023, overflow to an infinity. The sign of zero is
  not modelled.
\<close>

datatype double = Fin rat | DNaN | DPInf | DNInf

function bitlen :: "int \<Rightarrow> int" where
  "bitlen n = (if n \<le> 0 then 0 else 1 + bitlen (n div 2))"
  by pat_completeness auto
termination
  by (relation "measure nat") auto

declare bitlen.simps [simp del]

text \<open>\<open>ilog2 x\<close> is the integer part of the binary logarithm of a positive rational.\<close>

definition ilog2 :: "rat \<Rightarrow> int" where
  "ilog2 x = (let (p, q) = quotient_of x;
                  k = bitlen p - bitlen q
              in if 2 powi k \<le> x then k else k - 1)"

definition roundHalfEven :: "rat \<Rightarrow> int" where
  "roundHalfEven r = (let f = \<lfloor>r\<rfloor>; d = r - of_int f
                      in if d < 1 / 2 then f
                         else if 1 / 2 < d then f + 1
                         else if even f then f else f + 1)"

definition ulpExponent :: "rat \<Rightarrow> int" where
  "ulpExponent x = max (ilog2 \<bar>x\<bar>) (- 1022) - 52"

definition round_double :: "rat \<Rightarrow> double" where
  "round_double x =
     (if x = 0 then Fin 0
      else let e = ulpExponent x;
               y = of_int (roundHalfEven (x / 2 powi e)) * 2 powi e
           in if 1024 \<le> ilog2 \<bar>y\<bar> then (if 0 < x then DPInf else DNInf) else Fin y)"

fun dneg :: "double \<Rightarrow> double" where
  "dneg (Fin x) = Fin (- x)"
| "dneg DNaN = DNaN"
| "dneg DPInf = DNInf"
| "dneg DNInf = DPInf"

definition dinf :: "bool \<Rightarrow> double" where
  "dinf positive = (if positive then DPInf else DNInf)"

fun dadd :: "double \<Rightarrow> double \<Rightarrow> double" where
  "dadd (Fin x) (Fin y) = round_double (x + y)"
| "dadd DNaN _ = DNaN"
| "dadd _ DNaN = DNaN"
| "dadd DPInf DNInf = DNaN"
| "dadd DNInf DPInf = DNaN"
| "dadd DPInf _ = DPInf"
| "dadd _ DPInf = DPInf"
| "dadd DNInf _ = DNInf"
| "dadd _ DNInf = DNInf"

definition dsub :: "double \<Rightarrow> double \<Rightarrow> double" where
  "dsub a b = dadd a (dneg b)"

fun dmul :: "double \<Rightarrow> double \<Rightarrow> double" where
  "dmul (Fin x) (Fin y) = round_double (x * y)"
| "dmul DNaN _ = DNaN"
| "dmul _ DNaN = DNaN"
| "dmul (Fin x) DPInf = (if x = 0 then DNaN else dinf (0 < x))"
| "dmul (Fin x) DNInf = (if x = 0 then DNaN else dinf (x < 0))"
| "dmul DPInf (Fin y) = (if y = 0 then DNaN else dinf (0 < y))"
| "dmul DNInf (Fin y) = (if y = 0 then DNaN else dinf (y < 0))"
| "dmul DPInf DPInf = DPInf"
| "dmul DNInf DNInf = DPInf"
| "dmul DPInf DNInf = DNInf"
| "dmul DNInf DPInf = DNInf"

fun ddiv :: "double \<Rightarrow> double \<Rightarrow> double" where
  "ddiv (Fin x) (Fin y) =
     (if y \<noteq> 0 then round_double (x / y)
      else if x = 0 then DNaN else dinf (0 < x))"
| "ddiv DNaN _ = DNaN"
| "ddiv _ DNaN = DNaN"
| "ddiv (Fin x) DPInf = Fin 0"
| "ddiv (Fin x) DNInf = Fin 0"
| "ddiv DPInf (Fin y) = dinf (0 \<le> y)"
| "ddiv DNInf (Fin y) = dinf (y < 0)"
| "ddiv DPInf DPInf = DNaN"
| "ddiv DPInf DNInf = DNaN"
| "ddiv DNInf DPInf = DNaN"
| "ddiv DNInf DNInf = DNaN"

fun dlt :: "double \<Rightarrow> double \<Rightarrow> bool" where
  "dlt (Fin x) (Fin y) = (x < y)"
| "dlt DNaN _ = False"
| "dlt _ DNaN = False"
| "dlt DNInf DNInf = False"
| "dlt DNInf _ = True"
| "dlt _ DNInf = False"
| "dlt DPInf _ = False"
| "dlt _ DPInf = True"

text \<open>Integer square root, bit by bit from the top.\<close>

fun isqrtBits :: "nat \<Rightarrow> int \<Rightarrow> int \<Rightarrow> int" where
  "isqrtBits 0 acc n = (if (acc + 1) * (acc + 1) \<le> n then acc + 1 else acc)"
| "isqrtBits (Suc b) acc n =
     isqrtBits b (if (acc + 2 ^ Suc b) * (acc + 2 ^ Suc b) \<le> n then acc + 2 ^ Suc b else acc) n"

definition isqrt :: "int \<Rightarrow> int" where
  "isqrt n = isqrtBits (nat (bitlen n div 2 + 1)) 0 n"

definition round_sqrt :: "rat \<Rightarrow> double" where
  "round_sqrt x =
     (if x = 0 then Fin 0
      else let e = max (ilog2 x div 2) (- 1022) - 52;
               t = x / 2 powi (2 * e);
               f = isqrt \<lfloor>t\<rfloor>;
               h = (of_int f + 1 / 2) * (of_int f + 1 / 2);
               m = (if t < h then f else if h < t then f + 1
                    else if even f then f else f + 1)
           in Fin (of_int m * 2 powi e))"

fun dsqrt :: "double \<Rightarrow> double" where
  "dsqrt (Fin x) = (if x < 0 then DNaN else round_sqrt x)"
| "dsqrt DNaN = DNaN"
| "dsqrt DPInf = DPInf"
| "dsqrt DNInf = DNaN"


subsection \<open>monteCarloSimulation\<close>

text \<open>
  \<open>lit r\<close> is the numeric literal written \<open>r\<close> in the source. \<open>rand k\<close> is the result of
  the \<open>k\<close>-th call of \<^verbatim>\<open>Math.random()\<close>, counted from 0; iteration \<open>i\<close> makes the calls
  \<open>3i\<close>, \<open>3i+1\<close>, \<open>3i+2\<close>. \<^verbatim>\<open>Math.pow(x, 2)\<close> is the rounded product \<open>x * x\<close>. The
  comparator \<^verbatim>\<open>(a, b) => a - b\<close> puts \<open>a\<close> after \<open>b\<close> when \<open>a - b > 0\<close>. The loop counter is
  a double and stops growing at \<open>2 ^ 53\<close>, so for more iterations than that the loop does
  not end: the result is \<open>None\<close>.
\<close>

definition lit :: "rat \<Rightarrow> double" where
  "lit r = round_double r"











subsection \<open>Math.abs, Math.pow, Math.max, Math.min\<close>


text \<open>
  \<^verbatim>\<open>Math.pow(x, n)\<close> for a natural number \<open>n\<close>. It is 1 for \<open>n = 0\<close>, whatever \<open>x\<close> is. For the
  other exponents the language leaves the precision to the implementation; the model takes
  the correctly rounded power.
\<close>

fun mathPow :: "double \<Rightarrow> nat \<Rightarrow> double" where
  "mathPow x 0 = Fin 1"
| "mathPow (Fin x) (Suc n) = round_double (x ^ Suc n)"
| "mathPow DNaN (Suc n) = DNaN"
| "mathPow DPInf (Suc n) = DPInf"
| "mathPow DNInf (Suc n) = (if even (Suc n) then DPInf else DNInf)"

text \<open>\<^verbatim>\<open>Math.max\<close> and \<^verbatim>\<open>Math.min\<close> of two numbers are \<^verbatim>\<open>NaN\<close> when an argument is.\<close>

definition mathMax :: "double \<Rightarrow> double \<Rightarrow> double" where
  "mathMax a b = (if a = DNaN \<or> b = DNaN then DNaN else if dlt a b then b else a)"

definition mathMin :: "double \<Rightarrow> double \<Rightarrow> double" where
  "mathMin a b = (if a = DNaN \<or> b = DNaN then DNaN else if dlt b a then b else a)"

subsection \<open>calculateNPV, calculateIRR\<close>








subsection \<open>calculateDelphiEstimation\<close>

text \<open>The parameter \<^verbatim>\<open>iterations\<close> of the source is not used by it and is left out.\<close>

record expert_estimate =
  expertId :: string
  optimistic :: double
  mostLikely :: double
  pessimistic :: double
  confidence :: double

record delphi_result =
  finalEstimate :: double
  consensus :: double
  pert :: double
  confidenceWeightedAverage :: double

definition pertEstimate :: "expert_estimate \<Rightarrow> double" where
  "pertEstimate est =
     ddiv (dadd (dadd (optimistic est) (dmul (lit 4) (mostLikely est))) (pessimistic est))
          (lit 6)"

definition calculateDelphiEstimation :: "expert_estimate list \<Rightarrow> delphi_result" where
  "calculateDelphiEstimation estimates =
     (if estimates = [] then
        \<lparr>finalEstimate = lit 0, consensus = lit 0, pert = lit 0,
         confidenceWeightedAverage = lit 0\<rparr>
      else
        let pertEstimates = map pertEstimate estimates;
            n = lit (of_nat (length pertEstimates));
            average = ddiv (fold (\<lambda>est sum. dadd sum est) pertEstimates (lit 0)) n;
            totalConfidence = fold (\<lambda>est sum. dadd sum (confidence est)) estimates (lit 0);
            cwa = ddiv (fold (\<lambda>(p, est) sum. dadd sum (dmul p (confidence est)))
                          (zip pertEstimates estimates) (lit 0))
                       totalConfidence;
            stdDev = dsqrt (ddiv (fold (\<lambda>est sum. dadd sum (mathPow (dsub est average) 2))
                                    pertEstimates (lit 0)) n);
            cons = (if dlt (lit 0) average then dsub (lit 1) (ddiv stdDev average) else lit 0)
        in \<lparr>finalEstimate = cwa,
            consensus = mathMax (lit 0) (mathMin (lit 1) cons),
            pert = average,
            confidenceWeightedAverage = cwa\<rparr>)"

section \<open>Auxiliary definitions for the proofs\<close>




subsection \<open>Invariants of the scheduler\<close>

text \<open>
  \<open>visited\<close> holds exactly the ids of the tasks pushed to \<open>result\<close>; they are tasks of the
  input, each pushed once.
\<close>

definition sort_inv :: "task list \<Rightarrow> sort_state \<Rightarrow> bool" where
  "sort_inv tasks s \<longleftrightarrow>
     set (result s) \<subseteq> set tasks \<and> task_id ` set (result s) = visited s \<and>
     distinct (map task_id (result s))"

text \<open>The utilization object has an array for every resource.\<close>

definition has_keys :: "resource list \<Rightarrow> real list obj \<Rightarrow> bool" where
  "has_keys resources util \<longleftrightarrow> res_id ` set resources \<subseteq> dom (map_of util)"

text \<open>All committed amounts are non-negative.\<close>

definition util_nonneg :: "real list obj \<Rightarrow> bool" where
  "util_nonneg util \<longleftrightarrow> (\<forall>k arr. map_of util k = Some arr \<longrightarrow> (\<forall>x \<in> set arr. 0 \<le> x))"

definition amounts_nonneg :: "task \<Rightarrow> bool" where
  "amounts_nonneg task \<longleftrightarrow> (\<forall>req \<in> set (requiredResources task). 0 \<le> amount req)"

text \<open>
  A task of positive duration with a requirement of a positive amount of a resource whose
  \<open>maxCapacity\<close> is 0.
\<close>

definition blocked :: "resource list \<Rightarrow> task \<Rightarrow> bool" where
  "blocked resources task \<longleftrightarrow>
     0 < duration task \<and>
     (\<exists>req \<in> set (requiredResources task). 0 < amount req \<and>
        (\<exists>r. find (\<lambda>r. res_id r = resourceId req) resources = Some r \<and> maxCapacity r = 0))"

definition sched_inv :: "resource list \<Rightarrow> sched_state \<Rightarrow> bool" where
  "sched_inv resources st \<longleftrightarrow>
     has_keys resources (st_utilization st) \<and> util_nonneg (st_utilization st)"

section \<open>Decision tree: a decision node with one child\<close>

lemma single_child_decision_raises:
  assumes "n_type node = Decision" "length (n_children node) = 1"
  shows "\<exists>e. analyzeDecisionTree node = Inl e"
proof -
  from assms(2) obtain c where c: "n_children node = [c]"
    by (cases "n_children node") auto
  show ?thesis
    using assms(1) c
    by (cases "findBestPathWithRiskAnalysis c ([] @ [n_name node])")
       (simp_all add: analyzeDecisionTree_def findBestPathWithRiskAnalysis.simps[of node] Let_def)
qed

text \<open>
  C1. The claim: \<open>analyzeDecisionTree\<close> returns a result for every well-formed tree, in
  particular for a decision node with exactly one child. On the decision node
  \<open>Build or buy\<close> whose only child is the outcome \<open>Build\<close>, the sorted \<open>childAnalysis\<close> has
  one element, \<^verbatim>\<open>childAnalysis[1]\<close> is \<^verbatim>\<open>undefined\<close>, and reading its \<^verbatim>\<open>expectedValue\<close>
  raises \<open>TypeError\<close>.
\<close>

theorem analyzeDecisionTree_single_child:
  "analyzeDecisionTree
     (DecisionNode ''root'' ''Build or buy'' Decision None None None
        [DecisionNode ''o1'' ''Build'' Outcome (Some 1) (Some 50) (Some 100) []])
   = Inl TypeError"
  by code_simp

section \<open>Scheduler: the topological sort\<close>

lemma visiting_visit [simp]:
  "visiting (visit tasks tid s) = visiting s"
  "visiting (visit_each tasks ps s) = visiting s"
  by (induction tasks tid s and tasks ps s rule: visit_visit_each.induct)
     (auto simp: visit.simps Let_def split: option.splits)

lemma visit_inv:
  "sort_inv tasks s \<Longrightarrow>
     sort_inv tasks (visit tasks tid s) \<and> visited s \<subseteq> visited (visit tasks tid s) \<and>
     visited (visit tasks tid s) \<inter> visiting s \<subseteq> visited s \<and>
     (tid \<notin> visiting s \<and> tid \<in> task_id ` set tasks \<longrightarrow> tid \<in> visited (visit tasks tid s))"
  "sort_inv tasks s \<Longrightarrow>
     sort_inv tasks (visit_each tasks ps s) \<and> visited s \<subseteq> visited (visit_each tasks ps s) \<and>
     visited (visit_each tasks ps s) \<inter> visiting s \<subseteq> visited s \<and>
     (\<forall>p \<in> set ps. p \<notin> visiting s \<and> p \<in> task_id ` set tasks \<longrightarrow> p \<in> visited (visit_each tasks ps s))"
proof (induction tasks tid s and tasks ps s rule: visit_visit_each.induct)
  case (1 tasks tid s)
  show ?case
  proof (cases "tid \<in> visiting s \<or> tid \<in> visited s")
    case True
    then show ?thesis using 1(2) by (auto simp: visit.simps)
  next
    case False
    define s1 where "s1 = s\<lparr>visiting := insert tid (visiting s)\<rparr>"
    have inv1: "sort_inv tasks s1" using 1(2) by (simp add: s1_def sort_inv_def)
    show ?thesis
    proof (cases "find (\<lambda>t. task_id t = tid) tasks")
      case None
      then have "tid \<notin> task_id ` set tasks"
        by (auto simp: find_None_iff)
      with None False 1(2) show ?thesis
        by (auto simp: visit.simps[of tasks tid s] Let_def sort_inv_def)
    next
      case (Some task)
      define sp where "sp = visit_each tasks (prerequisites task) s1"
      have ih: "sort_inv tasks sp" "visited s1 \<subseteq> visited sp"
               "visited sp \<inter> visiting s1 \<subseteq> visited s1"
        using 1(1)[OF _ _ s1_def Some inv1] False unfolding sp_def by blast+
      have mem: "task \<in> set tasks" "task_id task = tid"
        using find_Some_mem[OF Some] by auto
      have fresh: "tid \<notin> visited sp"
        using ih(3) False by (auto simp: s1_def)
      have eq: "visit tasks tid s =
          sp\<lparr>result := result sp @ [task], visited := insert tid (visited sp),
             visiting := visiting s\<rparr>"
        using False Some by (auto simp: visit.simps[of tasks tid s] Let_def s1_def sp_def)
      have vs: "visiting sp = insert tid (visiting s)" by (simp add: sp_def s1_def)
      have "sort_inv tasks (visit tasks tid s)"
        unfolding eq using ih(1) mem fresh by (auto simp: sort_inv_def)
      moreover have "visited s \<subseteq> visited (visit tasks tid s)"
        unfolding eq using ih(2) by (auto simp: s1_def)
      moreover have "visited (visit tasks tid s) \<inter> visiting s \<subseteq> visited s"
        unfolding eq using ih(3) False by (auto simp: s1_def)
      moreover have "tid \<in> visited (visit tasks tid s)"
        unfolding eq by simp
      ultimately show ?thesis by blast
    qed
  qed
next
  case (2 tasks s)
  then show ?case by simp
next
  case (3 tasks prereq rest s)
  from 3(1)[OF 3(3)] have a: "sort_inv tasks (visit tasks prereq s)"
    "visited s \<subseteq> visited (visit tasks prereq s)"
    "visited (visit tasks prereq s) \<inter> visiting s \<subseteq> visited s"
    "prereq \<notin> visiting s \<and> prereq \<in> task_id ` set tasks \<longrightarrow> prereq \<in> visited (visit tasks prereq s)"
    by blast+
  from 3(2)[OF a(1)] have b: "sort_inv tasks (visit_each tasks rest (visit tasks prereq s))"
    "visited (visit tasks prereq s) \<subseteq> visited (visit_each tasks rest (visit tasks prereq s))"
    "visited (visit_each tasks rest (visit tasks prereq s)) \<inter> visiting s \<subseteq> visited (visit tasks prereq s)"
    "\<forall>p \<in> set rest. p \<notin> visiting s \<and> p \<in> task_id ` set tasks \<longrightarrow>
        p \<in> visited (visit_each tasks rest (visit tasks prereq s))"
    by simp_all
  let ?s1 = "visit tasks prereq s" and ?s2 = "visit_each tasks rest (visit tasks prereq s)"
  have c1: "visited s \<subseteq> visited ?s2" using a(2) b(2) by (rule subset_trans)
  have c2: "visited ?s2 \<inter> visiting s \<subseteq> visited s"
  proof
    fix i assume i: "i \<in> visited ?s2 \<inter> visiting s"
    with b(3) have "i \<in> visited ?s1" by blast
    with i a(3) show "i \<in> visited s" by blast
  qed
  have c3: "\<forall>p \<in> set (prereq # rest). p \<notin> visiting s \<and> p \<in> task_id ` set tasks \<longrightarrow>
              p \<in> visited ?s2"
  proof
    fix p assume "p \<in> set (prereq # rest)"
    then consider "p = prereq" | "p \<in> set rest" by auto
    then show "p \<notin> visiting s \<and> p \<in> task_id ` set tasks \<longrightarrow> p \<in> visited ?s2"
    proof cases
      case 1
      with a(4) b(2) show ?thesis by blast
    next
      case 2
      with b(4) show ?thesis by blast
    qed
  qed
  show ?case
    unfolding visit_each.simps using b(1) c1 c2 c3 by blast
qed

lemma topologicalSort_sound:
  "set (topologicalSort tasks) \<subseteq> set tasks \<and> distinct (map task_id (topologicalSort tasks))"
proof -
  have "sort_inv tasks \<lparr>visited = {}, visiting = {}, result = []\<rparr>"
    by (simp add: sort_inv_def)
  from visit_inv(2)[OF this, of "map task_id tasks"] show ?thesis
    by (simp add: topologicalSort_def sort_inv_def)
qed

lemma topologicalSort_subset: "set (topologicalSort tasks) \<subseteq> set tasks"
  using topologicalSort_sound by blast

lemma topologicalSort_length: "length (topologicalSort tasks) \<le> length tasks"
proof -
  have "distinct (topologicalSort tasks)"
    using topologicalSort_sound distinct_map by blast
  then have "length (topologicalSort tasks) = card (set (topologicalSort tasks))"
    by (simp add: distinct_card)
  also have "\<dots> \<le> card (set tasks)"
    by (simp add: card_mono topologicalSort_subset)
  also have "\<dots> \<le> length tasks" by (rule card_length)
  finally show ?thesis .
qed

lemma sort_inv_visited:
  "sort_inv tasks s \<Longrightarrow> i \<in> visited s \<Longrightarrow>
     \<exists>t' \<in> set (result s). task_id t' = i \<and> t' \<in> set tasks"
  unfolding sort_inv_def by (metis imageE subsetD)


lemma topologicalSort_covers:
  assumes "distinct (map task_id tasks)" "t \<in> set tasks"
  shows "t \<in> set (topologicalSort tasks)"
proof -
  define fin where
    "fin = visit_each tasks (map task_id tasks) \<lparr>visited = {}, visiting = {}, result = []\<rparr>"
  have inv0: "sort_inv tasks \<lparr>visited = {}, visiting = {}, result = []\<rparr>"
    by (simp add: sort_inv_def)
  from visit_inv(2)[OF inv0, of "map task_id tasks"] assms(2)
  have "sort_inv tasks fin" "task_id t \<in> visited fin"
    unfolding fin_def by auto
  from sort_inv_visited[OF this]
  obtain t' where t': "t' \<in> set (result fin)" "task_id t' = task_id t" "t' \<in> set tasks"
    by blast
  have "inj_on task_id (set tasks)"
    using assms(1) by (simp add: distinct_map)
  with t' assms(2) have "t' = t"
    by (simp add: inj_on_def)
  with t'(1) show ?thesis by (simp add: topologicalSort_def fin_def)
qed


section \<open>Scheduler: no run raises\<close>

lemma map_of_obj_set:
  "map_of (obj_set u k v) k' = (if k' = k then Some v else map_of u k')"
  by (induction u k v rule: obj_set.induct) auto

lemma dom_fold_obj_set:
  "dom (map_of (fold (\<lambda>r u. obj_set u (res_id r) (g r)) rs u0))
     = dom (map_of u0) \<union> res_id ` set rs"
  by (induction rs arbitrary: u0) (auto simp: map_of_obj_set dom_def)

lemma int_less_power2: "int n < 2 ^ k \<longleftrightarrow> n < 2 ^ k"
  by (metis of_nat_less_iff of_nat_numeral of_nat_power)

lemma horizon_small: "(m::nat) < 2 ^ 32 \<Longrightarrow> m < 2 ^ 53"
  by (erule less_trans) simp

lemma initUtilization_small:
  "maxPeriods < 2 ^ 32 \<Longrightarrow>
     initUtilization resources maxPeriods
     = Inr (fold (\<lambda>r util. obj_set util (res_id r) (replicate maxPeriods 0)) resources [])"
  by (simp add: initUtilization_def not_le[symmetric] int_less_power2[symmetric])

lemma initUtilization_large:
  "resources \<noteq> [] \<Longrightarrow> 2 ^ 32 \<le> maxPeriods \<Longrightarrow>
     initUtilization resources maxPeriods = Inl RangeError"
  using int_less_power2[of maxPeriods 32] by (simp add: initUtilization_def not_less[symmetric])

lemma has_keys_initUtilization:
  assumes "initUtilization resources n = Inr u"
  shows "has_keys resources u"
proof -
  from assms have "u = fold (\<lambda>r util. obj_set util (res_id r) (replicate n 0)) resources []"
    by (simp add: initUtilization_def split: if_splits)
  then show ?thesis by (simp add: has_keys_def dom_fold_obj_set)
qed

lemma dom_commitOne: "dom (map_of (commitOne period x u)) = dom (map_of u)"
  by (cases x) (auto simp: commitOne_def map_of_obj_set dom_def split: option.splits)

lemma dom_fold_commitOne: "dom (map_of (fold (commitOne period) xs u)) = dom (map_of u)"
  by (induction xs arbitrary: u) (simp_all add: dom_commitOne)

lemma dom_commitUtilization:
  "dom (map_of (commitUtilization assigned start dur u)) = dom (map_of u)"
proof -
  have "dom (map_of (fold (\<lambda>period u. fold (commitOne period) assigned u) ps u)) = dom (map_of u)"
    for ps
    by (induction ps arbitrary: u) (simp_all add: dom_fold_commitOne)
  then show ?thesis by (simp add: commitUtilization_def)
qed

lemma has_keys_commitUtilization:
  "has_keys resources u \<Longrightarrow> has_keys resources (commitUtilization assigned start dur u)"
  by (simp add: has_keys_def dom_commitUtilization)

lemma periodsAvailable_no_error:
  "has_keys resources util \<Longrightarrow> r \<in> set resources \<Longrightarrow>
     \<exists>b. periodsAvailable util r amt start dur = Inr b"
  by (auto simp: periodsAvailable_def has_keys_def split: option.splits)

lemma checkRequirements_no_error:
  "has_keys resources util \<Longrightarrow>
     \<exists>x. checkRequirements resources util start dur reqs assigned = Inr x"
proof (induction reqs arbitrary: assigned)
  case Nil
  then show ?case by simp
next
  case (Cons req reqs)
  show ?case
  proof (cases "find (\<lambda>r. res_id r = resourceId req) resources")
    case None
    then show ?thesis by simp
  next
    case (Some r)
    then have "r \<in> set resources" using find_Some_mem by fastforce
    from periodsAvailable_no_error[OF Cons.prems this]
    obtain b where "periodsAvailable util r (amount req) start dur = Inr b" by blast
    with Some Cons.IH[OF Cons.prems] show ?thesis by simp
  qed
qed

lemma increment_Suc:
  assumes "start \<le> maxPeriods" "maxPeriods < 2 ^ 53"
  shows "increment start = Suc start"
proof -
  from assms have "start < 2 ^ 53" by simp
  then show ?thesis by (simp add: increment_def int_less_power2)
qed

lemma scheduleTask_unfold:
  assumes "maxPeriods < 2 ^ 53"
  shows "scheduleTask task resources util start maxPeriods =
     (if start + duration task \<le> maxPeriods then
        (case checkRequirements resources util start (duration task)
                (requiredResources task) [] of
           Inl e \<Rightarrow> Some (Inl e)
         | Inr (Some assigned) \<Rightarrow>
             Some (Inr \<lparr>p_startPeriod = int start, p_assignedResources = assigned,
                        p_conflicts = []\<rparr>)
         | Inr None \<Rightarrow> scheduleTask task resources util (Suc start) maxPeriods)
      else Some (Inr \<lparr>p_startPeriod = -1, p_assignedResources = [], p_conflicts = []\<rparr>))"
proof (cases "start + duration task \<le> maxPeriods")
  case True
  then have "start \<le> maxPeriods" by simp
  then have np: "increment start = Suc start" using assms by (rule increment_Suc)
  show ?thesis by (subst scheduleTask.simps, subst np) (rule refl)
next
  case False
  then show ?thesis by (subst scheduleTask.simps) simp
qed

lemma first_fit_induct:
  assumes "\<And>start. (start + d \<le> m \<Longrightarrow> P (Suc start)) \<Longrightarrow> P start"
  shows "P (start::nat)"
proof (induction "Suc m - start" arbitrary: start rule: less_induct)
  case less
  show ?case
  proof (rule assms)
    assume "start + d \<le> m"
    then have "Suc m - Suc start < Suc m - start" by simp
    then show "P (Suc start)" by (rule less)
  qed
qed

lemma scheduleTask_no_error:
  assumes b: "maxPeriods < 2 ^ 53" and hk: "has_keys resources util"
  shows "\<exists>pl. scheduleTask task resources util start maxPeriods = Some (Inr pl) \<and>
          p_conflicts pl = [] \<and> (p_startPeriod pl = -1 \<or> 0 \<le> p_startPeriod pl)"
proof (induction start rule: first_fit_induct[where d = "duration task" and m = maxPeriods])
  case (1 start)
  note unfold = scheduleTask_unfold[OF b, of task resources util start]
  show ?case
  proof (cases "start + duration task \<le> maxPeriods")
    case False
    then show ?thesis by (simp add: unfold)
  next
    case True
    from checkRequirements_no_error[OF hk]
    obtain x where x: "checkRequirements resources util start (duration task)
                         (requiredResources task) [] = Inr x" by blast
    show ?thesis
    proof (cases x)
      case None
      with x True 1[OF True] show ?thesis by (simp add: unfold)
    next
      case (Some a)
      with x True show ?thesis by (simp add: unfold)
    qed
  qed
qed

lemma scheduleStep_no_error:
  assumes "maxPeriods < 2 ^ 53" and "has_keys resources (st_utilization st)"
  shows "\<exists>st'. scheduleStep resources maxPeriods task st = Some (Inr st') \<and>
           has_keys resources (st_utilization st') \<and>
           length (st_schedule st') + length (st_conflicts st')
             = Suc (length (st_schedule st) + length (st_conflicts st))"
proof -
  from scheduleTask_no_error[OF assms]
  obtain pl where pl:
    "scheduleTask task resources (st_utilization st)
       (getEarliestStartTime task (st_schedule st)) maxPeriods = Some (Inr pl)"
    "p_conflicts pl = []" by blast
  then show ?thesis
    using assms(2) by (simp add: scheduleStep_def Let_def has_keys_commitUtilization)
qed

lemma scheduleAll_no_error:
  assumes "maxPeriods < 2 ^ 53"
  shows "has_keys resources (st_utilization st) \<Longrightarrow>
     \<exists>st'. scheduleAll resources maxPeriods ts st = Some (Inr st') \<and>
       length (st_schedule st') + length (st_conflicts st')
         = length ts + (length (st_schedule st) + length (st_conflicts st))"
proof (induction ts arbitrary: st)
  case Nil
  then show ?case by simp
next
  case (Cons t ts)
  from scheduleStep_no_error[OF assms Cons.prems, of t]
  obtain st1 where st1: "scheduleStep resources maxPeriods t st = Some (Inr st1)"
    "has_keys resources (st_utilization st1)"
    "length (st_schedule st1) + length (st_conflicts st1)
       = Suc (length (st_schedule st) + length (st_conflicts st))" by blast
  from Cons.IH[OF st1(2)] st1(1,3) show ?case by auto
qed

lemma optimizeResourceAllocation_no_error:
  assumes "orDefault projectDeadline 100 < 2 ^ 32"
  shows "\<exists>res. optimizeResourceAllocation tasks resources projectDeadline = Some (Inr res) \<and>
     length (schedule res) + length (conflicts res) = length (topologicalSort tasks)"
proof -
  define m where "m = orDefault projectDeadline 100"
  define util0 where
    "util0 = fold (\<lambda>r util. obj_set util (res_id r) (replicate m (0::real))) resources []"
  have small: "m < 2 ^ 32" using assms by (simp add: m_def)
  then have init: "initUtilization resources m = Inr util0"
    unfolding util0_def by (rule initUtilization_small)
  then have "has_keys resources (st_utilization
          \<lparr>st_schedule = [], st_utilization = util0, st_conflicts = []\<rparr>)"
    by (simp add: has_keys_initUtilization)
  from scheduleAll_no_error[OF horizon_small[OF small] this, of "topologicalSort tasks"]
  show ?thesis
    unfolding optimizeResourceAllocation_def m_def[symmetric] Let_def init by auto
qed


section \<open>Scheduler: non-negative utilization and blocked tasks\<close>

lemma map_of_fold_obj_set:
  "map_of (fold (\<lambda>r u. obj_set u (res_id r) (g r)) rs u0) k = Some arr \<Longrightarrow>
     map_of u0 k = Some arr \<or> arr \<in> g ` set rs"
proof (induction rs arbitrary: u0)
  case Nil
  then show ?case by simp
next
  case (Cons r rs)
  from Cons.prems have
    "map_of (fold (\<lambda>r u. obj_set u (res_id r) (g r)) rs (obj_set u0 (res_id r) (g r))) k = Some arr"
    by simp
  from Cons.IH[OF this] show ?case
    by (auto simp: map_of_obj_set split: if_splits)
qed

lemma util_nonneg_init: "initUtilization resources n = Inr u \<Longrightarrow> util_nonneg u"
  unfolding util_nonneg_def initUtilization_def
  by (auto dest!: map_of_fold_obj_set split: if_splits)

lemma util_nonneg_commitOne:
  "util_nonneg u \<Longrightarrow> 0 \<le> snd x \<Longrightarrow> util_nonneg (commitOne period x u)"
  unfolding util_nonneg_def commitOne_def
  by (cases x) (auto simp: map_of_obj_set split: option.splits if_splits
                     dest!: set_update_subset_insert[THEN subsetD])

lemma util_nonneg_fold_commitOne:
  "util_nonneg u \<Longrightarrow> \<forall>x \<in> set xs. 0 \<le> snd x \<Longrightarrow> util_nonneg (fold (commitOne period) xs u)"
  by (induction xs arbitrary: u) (simp_all add: util_nonneg_commitOne)

lemma util_nonneg_commitUtilization:
  assumes "util_nonneg u" "\<forall>x \<in> set assigned. 0 \<le> snd x"
  shows "util_nonneg (commitUtilization assigned start dur u)"
proof -
  have "util_nonneg u \<Longrightarrow>
        util_nonneg (fold (\<lambda>period u. fold (commitOne period) assigned u) ps u)" for ps u
    by (induction ps arbitrary: u) (simp_all add: util_nonneg_fold_commitOne assms(2))
  with assms(1) show ?thesis by (simp add: commitUtilization_def)
qed

lemma set_obj_set: "set (obj_set u k v) \<subseteq> insert (k, v) (set u)"
  by (induction u k v rule: obj_set.induct) auto

lemma checkRequirements_assigned_nonneg:
  "checkRequirements resources util start dur reqs assigned = Inr (Some a) \<Longrightarrow>
   \<forall>x \<in> set assigned. 0 \<le> snd x \<Longrightarrow> \<forall>req \<in> set reqs. 0 \<le> amount req \<Longrightarrow>
   \<forall>x \<in> set a. 0 \<le> snd x"
proof (induction reqs arbitrary: assigned)
  case Nil
  then show ?case by simp
next
  case (Cons req reqs)
  from Cons.prems(1) obtain r where
    rec: "checkRequirements resources util start dur reqs
            (obj_set assigned (resourceId req) (amount req)) = Inr (Some a)"
    by (auto split: option.splits sum.splits if_splits)
  have "\<forall>x \<in> set (obj_set assigned (resourceId req) (amount req)). 0 \<le> snd x"
    using Cons.prems(2,3) set_obj_set[of assigned "resourceId req" "amount req"] by auto
  from Cons.IH[OF rec this] Cons.prems(3) show ?case by simp
qed

lemma scheduleTask_assigned_nonneg:
  assumes b: "maxPeriods < 2 ^ 53" and nn: "amounts_nonneg task"
  shows "scheduleTask task resources util start maxPeriods = Some (Inr pl) \<Longrightarrow>
     \<forall>x \<in> set (p_assignedResources pl). 0 \<le> snd x"
proof (induction start rule: first_fit_induct[where d = "duration task" and m = maxPeriods])
  case (1 start)
  note unfold = scheduleTask_unfold[OF b, of task resources util start]
  show ?case
  proof (cases "start + duration task \<le> maxPeriods")
    case False
    with 1(2) show ?thesis by (auto simp: unfold)
  next
    case True
    show ?thesis
    proof (cases "checkRequirements resources util start (duration task) (requiredResources task) []")
      case (Inl e)
      with True 1(2) show ?thesis by (simp add: unfold)
    next
      case (Inr x)
      show ?thesis
      proof (cases x)
        case None
        with Inr True 1(2) have "scheduleTask task resources util (Suc start) maxPeriods
                                 = Some (Inr pl)"
          by (simp add: unfold)
        with True show ?thesis by (rule 1(1))
      next
        case (Some a)
        with Inr True 1(2) have "p_assignedResources pl = a"
          by (auto simp: unfold)
        moreover have "\<forall>x \<in> set a. 0 \<le> snd x"
          using checkRequirements_assigned_nonneg[of resources util start "duration task"
                  "requiredResources task" "[]" a] Inr Some nn
          by (simp add: amounts_nonneg_def)
        ultimately show ?thesis by simp
      qed
    qed
  qed
qed

lemma periodsAvailable_zero_capacity:
  assumes "util_nonneg util" "0 < dur" "0 < amt" "maxCapacity r = 0"
  shows "periodsAvailable util r amt start dur \<noteq> Inr True"
proof (cases "map_of util (res_id r)")
  case None
  with assms(2) show ?thesis by (simp add: periodsAvailable_def)
next
  case (Some arr)
  have "0 \<le> currentUtilization arr start"
    using assms(1) Some by (auto simp: currentUtilization_def util_nonneg_def)
  then have "currentUtilization arr start + amt > availableCapacity r start"
    using assms(3,4) by (simp add: availableCapacity_def)
  moreover have "start \<in> set [start ..< start + dur]" using assms(2) by simp
  ultimately have "\<not> list_all (\<lambda>period. \<not> (currentUtilization arr period + amt
                                            > availableCapacity r period)) [start ..< start + dur]"
    unfolding list_all_iff by blast
  with Some assms(2) show ?thesis by (simp add: periodsAvailable_def)
qed

lemma checkRequirements_blocked:
  assumes "util_nonneg util" "0 < dur"
    and "req \<in> set reqs" "0 < amount req"
    and "find (\<lambda>r. res_id r = resourceId req) resources = Some r" "maxCapacity r = 0"
  shows "checkRequirements resources util start dur reqs assigned \<noteq> Inr (Some a)"
  using assms(3)
proof (induction reqs arbitrary: assigned)
  case Nil
  then show ?case by simp
next
  case (Cons q reqs)
  show ?case
  proof (cases "q = req")
    case True
    from periodsAvailable_zero_capacity[OF assms(1,2,4,6), of start]
    show ?thesis using True assms(5) by (auto split: sum.splits)
  next
    case False
    with Cons.prems have "req \<in> set reqs" by simp
    from Cons.IH[OF this] show ?thesis
      by (auto split: option.splits sum.splits)
  qed
qed

lemma scheduleTask_blocked:
  assumes bound: "maxPeriods < 2 ^ 53" and nn: "util_nonneg util"
    and bl: "blocked resources task"
  shows "scheduleTask task resources util start maxPeriods = Some (Inr pl) \<Longrightarrow>
     p_startPeriod pl = -1"
proof (induction start rule: first_fit_induct[where d = "duration task" and m = maxPeriods])
  case (1 start)
  note unfold = scheduleTask_unfold[OF bound, of task resources util start]
  from bl obtain req r where
    b: "0 < duration task" "req \<in> set (requiredResources task)" "0 < amount req"
       "find (\<lambda>r. res_id r = resourceId req) resources = Some r" "maxCapacity r = 0"
    unfolding blocked_def by blast
  show ?case
  proof (cases "start + duration task \<le> maxPeriods")
    case False
    with 1(2) show ?thesis by (auto simp: unfold)
  next
    case True
    show ?thesis
    proof (cases "checkRequirements resources util start (duration task) (requiredResources task) []")
      case (Inl e)
      with True 1(2) show ?thesis by (simp add: unfold)
    next
      case (Inr x)
      show ?thesis
      proof (cases x)
        case None
        with Inr True 1(2) have "scheduleTask task resources util (Suc start) maxPeriods
                                 = Some (Inr pl)"
          by (simp add: unfold)
        with True show ?thesis by (rule 1(1))
      next
        case (Some a)
        with Inr checkRequirements_blocked[OF nn b(1,2,3,4,5), of start "[]" a]
        show ?thesis by simp
      qed
    qed
  qed
qed

lemma scheduleStep_cases:
  assumes bound: "maxPeriods < 2 ^ 53"
    and "sched_inv resources st" "amounts_nonneg task"
  shows "\<exists>st'. scheduleStep resources maxPeriods task st = Some (Inr st') \<and>
     sched_inv resources st' \<and>
     ((st_schedule st' = st_schedule st \<and>
       st_conflicts st' = st_conflicts st @ [cannotSchedule task]) \<or>
      (\<not> blocked resources task \<and> st_conflicts st' = st_conflicts st \<and>
       (\<exists>e. st_schedule st' = st_schedule st @ [e] \<and> taskId e = task_id task)))"
proof -
  from assms(2) have hk: "has_keys resources (st_utilization st)"
    and nn: "util_nonneg (st_utilization st)" by (simp_all add: sched_inv_def)
  from scheduleTask_no_error[OF bound hk]
  obtain pl where pl:
    "scheduleTask task resources (st_utilization st)
       (getEarliestStartTime task (st_schedule st)) maxPeriods = Some (Inr pl)"
    "p_conflicts pl = []" by blast
  show ?thesis
  proof (cases "p_startPeriod pl = -1")
    case True
    with pl assms(2) show ?thesis by (simp add: scheduleStep_def Let_def sched_inv_def)
  next
    case False
    with scheduleTask_blocked[OF bound nn _ pl(1)] have nb: "\<not> blocked resources task" by blast
    from scheduleTask_assigned_nonneg[OF bound assms(3) pl(1)]
    have "util_nonneg (commitUtilization (p_assignedResources pl) (nat (p_startPeriod pl))
             (duration task) (st_utilization st))"
      by (rule util_nonneg_commitUtilization[OF nn])
    with False pl hk nb show ?thesis
      by (simp add: scheduleStep_def Let_def sched_inv_def has_keys_commitUtilization)
  qed
qed

lemma scheduleAll_accounts:
  assumes bound: "maxPeriods < 2 ^ 53" and "\<forall>t \<in> set ts. amounts_nonneg t"
  shows "sched_inv resources st \<Longrightarrow>
     \<exists>st'. scheduleAll resources maxPeriods ts st = Some (Inr st') \<and>
       taskId ` set (st_schedule st') \<subseteq>
         taskId ` set (st_schedule st) \<union> {task_id u | u. u \<in> set ts \<and> \<not> blocked resources u} \<and>
       set (st_conflicts st) \<union> {cannotSchedule u | u. u \<in> set ts \<and> blocked resources u}
         \<subseteq> set (st_conflicts st') \<and>
       (\<forall>u \<in> set ts. task_id u \<in> taskId ` set (st_schedule st') \<or>
                       cannotSchedule u \<in> set (st_conflicts st')) \<and>
       taskId ` set (st_schedule st) \<subseteq> taskId ` set (st_schedule st')"
  using assms(2)
proof (induction ts arbitrary: st)
  case Nil
  then show ?case by simp
next
  case (Cons t ts)
  from Cons.prems(2) have nn: "amounts_nonneg t" and rest: "\<forall>t \<in> set ts. amounts_nonneg t"
    by simp_all
  from scheduleStep_cases[OF bound Cons.prems(1) nn]
  obtain st1 where st1: "scheduleStep resources maxPeriods t st = Some (Inr st1)"
    "sched_inv resources st1"
    "(st_schedule st1 = st_schedule st \<and>
       st_conflicts st1 = st_conflicts st @ [cannotSchedule t]) \<or>
      (\<not> blocked resources t \<and> st_conflicts st1 = st_conflicts st \<and>
       (\<exists>e. st_schedule st1 = st_schedule st @ [e] \<and> taskId e = task_id t))" by blast
  from Cons.IH[OF st1(2) rest]
  obtain st' where st': "scheduleAll resources maxPeriods ts st1 = Some (Inr st')"
    "taskId ` set (st_schedule st') \<subseteq>
         taskId ` set (st_schedule st1) \<union> {task_id u | u. u \<in> set ts \<and> \<not> blocked resources u}"
    "set (st_conflicts st1) \<union> {cannotSchedule u | u. u \<in> set ts \<and> blocked resources u}
         \<subseteq> set (st_conflicts st')"
    "\<forall>u \<in> set ts. task_id u \<in> taskId ` set (st_schedule st') \<or>
                       cannotSchedule u \<in> set (st_conflicts st')"
    "taskId ` set (st_schedule st1) \<subseteq> taskId ` set (st_schedule st')" by blast
  have run: "scheduleAll resources maxPeriods (t # ts) st = Some (Inr st')"
    using st1(1) st'(1) by simp
  from st1(3) show ?case
  proof
    assume c: "st_schedule st1 = st_schedule st \<and>
       st_conflicts st1 = st_conflicts st @ [cannotSchedule t]"
    with st'(2,3,4,5) have
      "taskId ` set (st_schedule st') \<subseteq>
         taskId ` set (st_schedule st) \<union> {task_id u | u. u \<in> set (t # ts) \<and> \<not> blocked resources u}"
      "set (st_conflicts st) \<union> {cannotSchedule u | u. u \<in> set (t # ts) \<and> blocked resources u}
         \<subseteq> set (st_conflicts st')"
      "\<forall>u \<in> set (t # ts). task_id u \<in> taskId ` set (st_schedule st') \<or>
                       cannotSchedule u \<in> set (st_conflicts st')"
      "taskId ` set (st_schedule st) \<subseteq> taskId ` set (st_schedule st')"
      by auto
    with run show ?thesis by blast
  next
    assume c: "\<not> blocked resources t \<and> st_conflicts st1 = st_conflicts st \<and>
       (\<exists>e. st_schedule st1 = st_schedule st @ [e] \<and> taskId e = task_id t)"
    then obtain e where e: "st_schedule st1 = st_schedule st @ [e]" "taskId e = task_id t"
      by blast
    with c st'(2,3,4,5) have
      "taskId ` set (st_schedule st') \<subseteq>
         taskId ` set (st_schedule st) \<union> {task_id u | u. u \<in> set (t # ts) \<and> \<not> blocked resources u}"
      "set (st_conflicts st) \<union> {cannotSchedule u | u. u \<in> set (t # ts) \<and> blocked resources u}
         \<subseteq> set (st_conflicts st')"
      "\<forall>u \<in> set (t # ts). task_id u \<in> taskId ` set (st_schedule st') \<or>
                       cannotSchedule u \<in> set (st_conflicts st')"
      "taskId ` set (st_schedule st) \<subseteq> taskId ` set (st_schedule st')"
      by auto
    with run show ?thesis by blast
  qed
qed


section \<open>Scheduler: a loop that does not end\<close>

text \<open>
  With no resource at all the arrays are never allocated, and a horizon beyond \<open>2 ^ 53\<close>
  periods is accepted. A task with a requirement then finds no resource at any start, the
  counter of \<open>scheduleTask\<close> reaches \<open>2 ^ 53\<close> and stays there.
\<close>

lemma scheduleTask_stuck:
  assumes "2 ^ 53 \<le> int start" and "start + duration task \<le> maxPeriods"
    and "checkRequirements resources util start (duration task) (requiredResources task) []
         = Inr None"
  shows "scheduleTask task resources util start maxPeriods = None"
proof (cases "scheduleTask task resources util start maxPeriods")
  case None
  then show ?thesis .
next
  case (Some y)
  have "\<not> (2 ^ 53 \<le> int start \<and> start + duration task \<le> maxPeriods \<and>
           checkRequirements resources util start (duration task) (requiredResources task) []
           = Inr None)"
    by (rule scheduleTask.raw_induct[where P = "\<lambda>task resources util start maxPeriods y.
            \<not> (2 ^ 53 \<le> int start \<and> start + duration task \<le> maxPeriods \<and>
               checkRequirements resources util start (duration task)
                 (requiredResources task) [] = Inr None)", OF _ Some])
       (auto simp: increment_def)
  with assms show ?thesis by simp
qed

lemma checkRequirements_no_resources:
  "requiredResources task \<noteq> [] \<Longrightarrow>
     checkRequirements [] util start (duration task) (requiredResources task) [] = Inr None"
  by (cases "requiredResources task") simp_all

lemma scheduleTask_no_resources_diverges:
  assumes "requiredResources task \<noteq> []" and "2 ^ 53 + duration task \<le> maxPeriods"
  shows "start \<le> 2 ^ 53 \<Longrightarrow> scheduleTask task [] util start maxPeriods = None"
proof (induction "2 ^ 53 - start" arbitrary: start)
  case 0
  then have "start = 2 ^ 53" by simp
  then have "2 ^ 53 \<le> int start" by simp
  moreover have "start + duration task \<le> maxPeriods" using assms(2) 0 by simp
  ultimately show ?case
    using checkRequirements_no_resources[OF assms(1)] by (rule scheduleTask_stuck)
next
  case (Suc n)
  then have lt: "start < 2 ^ 53" by simp
  then have np: "increment start = Suc start" by (simp add: increment_def int_less_power2)
  have le: "start + duration task \<le> maxPeriods" using assms(2) lt by simp
  have "n = 2 ^ 53 - Suc start" using Suc(2) by simp
  moreover have "Suc start \<le> 2 ^ 53" using lt by simp
  ultimately have "scheduleTask task [] util (Suc start) maxPeriods = None" by (rule Suc(1))
  then show ?case
    using le by (subst scheduleTask.simps)
      (simp add: checkRequirements_no_resources[OF assms(1)] np)
qed

lemma no_resources_long_horizon:
  "optimizeResourceAllocation
     [\<lparr>task_id = ''t'', task_name = ''T'', duration = 1,
       requiredResources = [\<lparr>resourceId = ''r'', amount = 1\<rparr>],
       prerequisites = [], priority = 1\<rparr>] [] (Some (2 ^ 54)) = None"
proof -
  let ?t = "\<lparr>task_id = ''t'', task_name = ''T'', duration = 1,
             requiredResources = [\<lparr>resourceId = ''r'', amount = 1\<rparr>],
             prerequisites = [], priority = (1::real)\<rparr>"
  have sorted: "topologicalSort [?t] = [?t]"
    by (simp add: topologicalSort_def visit.simps Let_def)
  have "(2::nat) ^ 53 + duration ?t \<le> 2 ^ 54" by simp
  then have "scheduleTask ?t [] [] 0 (2 ^ 54) = None"
    by (intro scheduleTask_no_resources_diverges) simp_all
  then show ?thesis
    unfolding optimizeResourceAllocation_def Let_def sorted
    by (simp add: orDefault_def initUtilization_def scheduleStep_def getEarliestStartTime_def)
qed

section \<open>Scheduler: the claims\<close>

text \<open>
  C2. The claim: a start period is accepted only if committed utilization plus the requested
  amount is at most \<open>maxCapacity \<times> availability[p mod length]\<close> in every period of the
  task, also where the multiplier is 0, so that no committed amount exceeds capacity times
  availability. The code multiplies by \<^verbatim>\<open>availability[...] || 1\<close>, which turns a multiplier
  0 into 1. With the \<open>QA Team\<close> resource of the repository's own sample data (capacity 3,
  availability \<open>[1,1,1,1,1,0,0]\<close>) and one task of 7 periods needing amount 1, the task is
  placed at period 0 and 1 unit is committed in periods 5 and 6, where capacity times
  availability is 0.
\<close>

theorem zero_availability_overcommitted:
  "optimizeResourceAllocation
     [\<lparr>task_id = ''task1'', task_name = ''Testing'', duration = 7,
       requiredResources = [\<lparr>resourceId = ''qa1'', amount = 1\<rparr>],
       prerequisites = [], priority = 1\<rparr>]
     [\<lparr>res_id = ''qa1'', res_name = ''QA Team'', res_type = ''QA'', maxCapacity = 3,
       hourlyRate = 60, availability = [1, 1, 1, 1, 1, 0, 0]\<rparr>] (Some 7)
   = Some (Inr \<lparr>schedule = [\<lparr>taskId = ''task1'', startPeriod = 0, endPeriod = 7,
                              assignedResources = [(''qa1'', 1)]\<rparr>],
                resourceUtilization = [(''qa1'', [1, 1, 1, 1, 1, 1, 1])],
                totalCost = 420, projectDuration = 7, conflicts = []\<rparr>)"
  by code_simp

text \<open>
  C3. Task \<open>B\<close> has task \<open>A\<close> as its only prerequisite; one resource has capacity 1 and
  availability constantly 1; both tasks need amount 1 of it for 2 periods. In either order of
  the task list, and for every horizon of at least 4 periods and less than \<open>2 ^ 32\<close> (the
  default is 100), the schedule places \<open>A\<close> in \<open>[0, 2)\<close> and \<open>B\<close> in \<open>[2, 4)\<close>, so \<open>B\<close> starts where \<open>A\<close> ends; the
  total cost is the sum over both tasks of amount \<open>\<times>\<close> rate \<open>\<times>\<close> duration; there is no
  conflict.
\<close>

theorem two_task_chain:
  assumes "a \<noteq> b" and "\<forall>x \<in> set av. x = 1" and "4 \<le> orDefault projectDeadline 100"
    and small: "orDefault projectDeadline 100 < 2 ^ 32"
    and A: "A = \<lparr>task_id = a, task_name = na, duration = 2,
                  requiredResources = [\<lparr>resourceId = rid, amount = 1\<rparr>],
                  prerequisites = [], priority = pa\<rparr>"
    and B: "B = \<lparr>task_id = b, task_name = nb, duration = 2,
                  requiredResources = [\<lparr>resourceId = rid, amount = 1\<rparr>],
                  prerequisites = [a], priority = pb\<rparr>"
    and R: "R = \<lparr>res_id = rid, res_name = rn, res_type = rt, maxCapacity = 1,
                  hourlyRate = h, availability = av\<rparr>"
    and tasks: "tasks = [A, B] \<or> tasks = [B, A]"
  shows "\<exists>res. optimizeResourceAllocation tasks [R] projectDeadline = Some (Inr res) \<and>
     schedule res = [\<lparr>taskId = a, startPeriod = 0, endPeriod = 2,
                      assignedResources = [(rid, 1)]\<rparr>,
                    \<lparr>taskId = b, startPeriod = 2, endPeriod = 4,
                      assignedResources = [(rid, 1)]\<rparr>] \<and>
     totalCost res = 1 * h * 2 + 1 * h * 2 \<and> conflicts res = [] \<and> projectDuration res = 4"
proof -
  define m where "m = orDefault projectDeadline 100"
  have m: "4 \<le> m" using assms(3) by (simp add: m_def)
  have "topologicalSort [A, B] = [A, B]" "topologicalSort [B, A] = [A, B]"
    using assms(1) by (simp_all add: topologicalSort_def visit.simps A B Let_def)
  with tasks have sorted: "topologicalSort tasks = [A, B]" by auto
  have cap: "availableCapacity R p = 1" for p
  proof (cases "av = []")
    case True
    then show ?thesis by (simp add: availableCapacity_def availabilityOr1_def R)
  next
    case False
    then have "av ! (p mod length av) \<in> set av" by simp
    with assms(2) have "av ! (p mod length av) = 1" by blast
    with False show ?thesis by (simp add: availableCapacity_def availabilityOr1_def R)
  qed
  have R_id: "res_id R = rid" and rate: "hourlyRate R = h" by (simp_all add: R)
  have "m < 2 ^ 32" using small by (simp add: m_def)
  then have u0: "initUtilization [R] m = Inr [(rid, replicate m 0)]"
    by (simp add: initUtilization_small R_id)
  have stepA: "scheduleStep [R] m A
                 \<lparr>st_schedule = [], st_utilization = [(rid, replicate m 0)], st_conflicts = []\<rparr>
     = Some (Inr \<lparr>st_schedule = [\<lparr>taskId = a, startPeriod = 0, endPeriod = 2,
                                   assignedResources = [(rid, 1)]\<rparr>],
                  st_utilization = [(rid, (replicate m 0)[0 := 1, 1 := 1])],
                  st_conflicts = []\<rparr>)"
    using m
    by (simp add: scheduleStep_def getEarliestStartTime_def A scheduleTask.simps
        periodsAvailable_def R_id cap commitUtilization_def commitOne_def
        currentUtilization_def)
  have stepB: "scheduleStep [R] m B
       \<lparr>st_schedule = [\<lparr>taskId = a, startPeriod = 0, endPeriod = 2,
                         assignedResources = [(rid, 1)]\<rparr>],
        st_utilization = [(rid, (replicate m 0)[0 := 1, 1 := 1])], st_conflicts = []\<rparr>
     = Some (Inr \<lparr>st_schedule = [\<lparr>taskId = a, startPeriod = 0, endPeriod = 2,
                                   assignedResources = [(rid, 1)]\<rparr>,
                                 \<lparr>taskId = b, startPeriod = 2, endPeriod = 4,
                                   assignedResources = [(rid, 1)]\<rparr>],
                  st_utilization = [(rid, (replicate m 0)[0 := 1, 1 := 1, 2 := 1, 3 := 1])],
                  st_conflicts = []\<rparr>)"
    using m
    by (simp add: scheduleStep_def getEarliestStartTime_def B scheduleTask.simps
        periodsAvailable_def R_id cap commitUtilization_def commitOne_def
        currentUtilization_def)
  have allAB: "scheduleAll [R] m [A, B]
      \<lparr>st_schedule = [], st_utilization = [(rid, replicate m 0)], st_conflicts = []\<rparr>
     = Some (Inr \<lparr>st_schedule = [\<lparr>taskId = a, startPeriod = 0, endPeriod = 2,
                                   assignedResources = [(rid, 1)]\<rparr>,
                                 \<lparr>taskId = b, startPeriod = 2, endPeriod = 4,
                                   assignedResources = [(rid, 1)]\<rparr>],
                  st_utilization = [(rid, (replicate m 0)[0 := 1, 1 := 1, 2 := 1, 3 := 1])],
                  st_conflicts = []\<rparr>)"
    unfolding scheduleAll.simps stepA option.case sum.case stepB by (rule refl)
  show ?thesis
    unfolding optimizeResourceAllocation_def sorted m_def[symmetric] Let_def u0 sum.case allAB
    by (simp add: entryCost_def R_id rate)
qed

theorem two_task_chain_witness:
  "''A'' \<noteq> ''B'' \<and> 4 \<le> orDefault None 100 \<and> orDefault None 100 < 2 ^ 32 \<and>
   (\<exists>res. optimizeResourceAllocation
       [\<lparr>task_id = ''B'', task_name = ''Build'', duration = 2,
         requiredResources = [\<lparr>resourceId = ''dev'', amount = 1\<rparr>],
         prerequisites = [''A''], priority = 2\<rparr>,
        \<lparr>task_id = ''A'', task_name = ''Design'', duration = 2,
         requiredResources = [\<lparr>resourceId = ''dev'', amount = 1\<rparr>],
         prerequisites = [], priority = 1\<rparr>]
       [\<lparr>res_id = ''dev'', res_name = ''Developer'', res_type = ''Developer'',
         maxCapacity = 1, hourlyRate = 75, availability = [1]\<rparr>] None = Some (Inr res) \<and>
     schedule res = [\<lparr>taskId = ''A'', startPeriod = 0, endPeriod = 2,
                      assignedResources = [(''dev'', 1)]\<rparr>,
                    \<lparr>taskId = ''B'', startPeriod = 2, endPeriod = 4,
                      assignedResources = [(''dev'', 1)]\<rparr>] \<and>
     totalCost res = 300 \<and> conflicts res = [] \<and> projectDuration res = 4)"
proof -
  have h1: "''A'' \<noteq> ''B''" by simp
  have h2: "\<forall>x \<in> set [1::real]. x = 1" by simp
  have h3: "4 \<le> orDefault None 100" by (simp add: orDefault_def)
  have h4: "orDefault None 100 < 2 ^ 32" by (simp add: orDefault_def)
  from two_task_chain[where na = "''Design''" and rid = "''dev''" and pa = 1
      and nb = "''Build''" and pb = 2 and rn = "''Developer''" and rt = "''Developer''"
      and h = 75, OF h1 h2 h3 h4 refl refl refl disjI2[OF refl]]
  show ?thesis using h1 h2 h3 h4 by simp
qed

text \<open>
  C4, as stated, counts every task that requires a positive amount of a resource of
  capacity 0. A task of duration 0 occupies no period, so no period is checked and it is
  placed, without a conflict.
\<close>

theorem zero_duration_task_is_scheduled:
  "optimizeResourceAllocation
     [\<lparr>task_id = ''t'', task_name = ''T'', duration = 0,
       requiredResources = [\<lparr>resourceId = ''r'', amount = 1\<rparr>],
       prerequisites = [], priority = 1\<rparr>]
     [\<lparr>res_id = ''r'', res_name = ''R'', res_type = ''General'', maxCapacity = 0,
       hourlyRate = 50, availability = [1]\<rparr>] (Some 2)
   = Some (Inr \<lparr>schedule = [\<lparr>taskId = ''t'', startPeriod = 0, endPeriod = 0,
                              assignedResources = [(''r'', 1)]\<rparr>],
                resourceUtilization = [(''r'', [0, 0])],
                totalCost = 0, projectDuration = 0, conflicts = []\<rparr>)"
  by code_simp

text \<open>
  C4, amended. Task ids are unique and amounts are non-negative (the data model), and the
  horizon is less than \<open>2 ^ 32\<close> periods. A task of duration at least 1 that requires a
  positive amount of a resource whose \<open>maxCapacity\<close> is 0 is left out of the schedule and the conflict \<open>cannotSchedule t\<close> is recorded for it; the run
  does not raise, and every task of the list is either in the schedule or has its conflict
  recorded.
\<close>

theorem zero_capacity_task_unscheduled:
  assumes ids: "distinct (map task_id tasks)"
    and amounts: "\<forall>u \<in> set tasks. \<forall>q \<in> set (requiredResources u). 0 \<le> amount q"
    and t: "t \<in> set tasks" "0 < duration t"
    and req: "req \<in> set (requiredResources t)" "0 < amount req"
    and r: "find (\<lambda>r. res_id r = resourceId req) resources = Some r" "maxCapacity r = 0"
    and small: "orDefault projectDeadline 100 < 2 ^ 32"
  shows "\<exists>res. optimizeResourceAllocation tasks resources projectDeadline = Some (Inr res) \<and>
           task_id t \<notin> taskId ` set (schedule res) \<and>
           cannotSchedule t \<in> set (conflicts res) \<and>
           (\<forall>u \<in> set tasks. task_id u \<in> taskId ` set (schedule res) \<or>
                              cannotSchedule u \<in> set (conflicts res))"
proof -
  let ?m = "orDefault projectDeadline 100"
  define util0 where
    "util0 = fold (\<lambda>r util. obj_set util (res_id r) (replicate ?m (0::real))) resources []"
  let ?init = "\<lparr>st_schedule = [], st_utilization = util0, st_conflicts = []\<rparr>"
  have init: "initUtilization resources ?m = Inr util0"
    unfolding util0_def using small by (rule initUtilization_small)
  then have inv: "sched_inv resources ?init"
    by (simp add: sched_inv_def has_keys_initUtilization util_nonneg_init)
  have sub: "set (topologicalSort tasks) \<subseteq> set tasks" by (rule topologicalSort_subset)
  have nn: "\<forall>u \<in> set (topologicalSort tasks). amounts_nonneg u"
    using amounts sub by (auto simp: amounts_nonneg_def)
  from scheduleAll_accounts[OF horizon_small[OF small] nn inv]
  obtain st where st: "scheduleAll resources ?m (topologicalSort tasks) ?init = Some (Inr st)"
    "taskId ` set (st_schedule st) \<subseteq>
       taskId ` set (st_schedule ?init) \<union>
       {task_id u | u. u \<in> set (topologicalSort tasks) \<and> \<not> blocked resources u}"
    "set (st_conflicts ?init) \<union>
       {cannotSchedule u | u. u \<in> set (topologicalSort tasks) \<and> blocked resources u}
       \<subseteq> set (st_conflicts st)"
    "\<forall>u \<in> set (topologicalSort tasks). task_id u \<in> taskId ` set (st_schedule st) \<or>
                       cannotSchedule u \<in> set (st_conflicts st)"
    by blast
  have bl: "blocked resources t"
    unfolding blocked_def using t(2) req r by blast
  have inj: "inj_on task_id (set tasks)" using ids by (simp add: distinct_map)
  have "task_id t \<notin> taskId ` set (st_schedule st)"
  proof
    assume "task_id t \<in> taskId ` set (st_schedule st)"
    with st(2) obtain u where u: "u \<in> set (topologicalSort tasks)" "\<not> blocked resources u"
      "task_id u = task_id t" by auto
    with sub inj t(1) have "u = t" by (auto simp: inj_on_def)
    with u(2) bl show False by simp
  qed
  moreover have "cannotSchedule t \<in> set (st_conflicts st)"
    using st(3) bl topologicalSort_covers[OF ids t(1)] by auto
  moreover have "\<forall>u \<in> set tasks. task_id u \<in> taskId ` set (st_schedule st) \<or>
                              cannotSchedule u \<in> set (st_conflicts st)"
    using st(4) topologicalSort_covers[OF ids] by blast
  ultimately show ?thesis
    using st(1) by (simp add: optimizeResourceAllocation_def Let_def init)
qed

theorem zero_capacity_task_unscheduled_witness:
  "distinct (map task_id
     [\<lparr>task_id = ''t'', task_name = ''T'', duration = 1,
       requiredResources = [\<lparr>resourceId = ''r'', amount = 1\<rparr>],
       prerequisites = [], priority = 1\<rparr>,
      \<lparr>task_id = ''u'', task_name = ''U'', duration = 1,
       requiredResources = [], prerequisites = [''t''], priority = 1\<rparr>]) \<and>
   find (\<lambda>r. res_id r = ''r'')
     [\<lparr>res_id = ''r'', res_name = ''R'', res_type = ''General'', maxCapacity = 0,
       hourlyRate = 50, availability = [1]\<rparr>]
     = Some \<lparr>res_id = ''r'', res_name = ''R'', res_type = ''General'', maxCapacity = 0,
             hourlyRate = 50, availability = [1]\<rparr> \<and>
   orDefault (Some 2) 100 < 2 ^ 32 \<and>
   (\<exists>res. optimizeResourceAllocation
       [\<lparr>task_id = ''t'', task_name = ''T'', duration = 1,
         requiredResources = [\<lparr>resourceId = ''r'', amount = 1\<rparr>],
         prerequisites = [], priority = 1\<rparr>,
        \<lparr>task_id = ''u'', task_name = ''U'', duration = 1,
         requiredResources = [], prerequisites = [''t''], priority = 1\<rparr>]
       [\<lparr>res_id = ''r'', res_name = ''R'', res_type = ''General'', maxCapacity = 0,
         hourlyRate = 50, availability = [1]\<rparr>] (Some 2) = Some (Inr res) \<and>
      ''t'' \<notin> taskId ` set (schedule res) \<and>
      ''Cannot schedule task T - insufficient resources'' \<in> set (conflicts res))"
proof -
  let ?T = "\<lparr>task_id = ''t'', task_name = ''T'', duration = 1,
       requiredResources = [\<lparr>resourceId = ''r'', amount = 1\<rparr>],
       prerequisites = [], priority = 1\<rparr>"
  let ?U = "\<lparr>task_id = ''u'', task_name = ''U'', duration = 1,
       requiredResources = [], prerequisites = [''t''], priority = (1::real)\<rparr>"
  let ?R = "\<lparr>res_id = ''r'', res_name = ''R'', res_type = ''General'', maxCapacity = 0,
       hourlyRate = 50, availability = [1]\<rparr>"
  let ?q = "\<lparr>resourceId = ''r'', amount = 1\<rparr>"
  have h1: "distinct (map task_id [?T, ?U])" by simp
  have h2: "\<forall>u \<in> set [?T, ?U]. \<forall>q \<in> set (requiredResources u). 0 \<le> amount q" by simp
  have h3: "?T \<in> set [?T, ?U]" "0 < duration ?T" by simp_all
  have h4: "?q \<in> set (requiredResources ?T)" "0 < amount ?q" by simp_all
  have h5: "find (\<lambda>r. res_id r = resourceId ?q) [?R] = Some ?R" "maxCapacity ?R = 0"
    by simp_all
  have h6: "orDefault (Some 2) 100 < 2 ^ 32" by (simp add: orDefault_def)
  from zero_capacity_task_unscheduled[OF h1 h2 h3 h4 h5 h6]
  obtain res where "optimizeResourceAllocation [?T, ?U] [?R] (Some 2) = Some (Inr res)"
    "task_id ?T \<notin> taskId ` set (schedule res)"
    "cannotSchedule ?T \<in> set (conflicts res)" by blast
  then have "\<exists>res. optimizeResourceAllocation [?T, ?U] [?R] (Some 2) = Some (Inr res) \<and>
      ''t'' \<notin> taskId ` set (schedule res) \<and>
      ''Cannot schedule task T - insufficient resources'' \<in> set (conflicts res)"
    by (auto simp: cannotSchedule_def)
  moreover have "find (\<lambda>r. res_id r = ''r'') [?R] = Some ?R" by simp
  ultimately show ?thesis using h1 h6 by blast
qed

text \<open>
  C5. With the single scenario \<open>resourceMultiplier = 1\<close> and no \<open>timeConstraint\<close>,
  \<open>performScenarioAnalysis\<close> returns one outcome, whose \<open>result\<close> is the result of
  \<open>optimizeResourceAllocation\<close> on the same tasks and resources with no deadline.
\<close>

theorem scenario_identity:
  "\<exists>out. performScenarioAnalysis tasks resources
            [\<lparr>resourceMultiplier = 1, budgetConstraint = bc, timeConstraint = None,
              qualityRequirement = qr\<rparr>] = Some (Inr [out]) \<and>
         optimizeResourceAllocation tasks resources None = Some (Inr (so_result out))"
proof -
  have "map (\<lambda>r. r\<lparr>maxCapacity := maxCapacity r * 1\<rparr>) resources = resources"
    by (induction resources) simp_all
  moreover have "orDefault None 100 < 2 ^ 32" by (simp add: orDefault_def)
  then obtain res where "optimizeResourceAllocation tasks resources None = Some (Inr res)"
    using optimizeResourceAllocation_no_error by blast
  ultimately show ?thesis by (simp add: runScenario_def)
qed

text \<open>
  C6, as stated, has a result for every task list, whatever the resources and the horizon.
  The utilization array of a resource has one cell for each period of the horizon, and
  \<^verbatim>\<open>new Array(maxPeriods)\<close> raises \<open>RangeError\<close> for a horizon of \<open>2 ^ 32\<close> periods: with one
  resource and two tasks that are each other's prerequisite the call raises and returns no
  result. (With no resource and a horizon beyond \<open>2 ^ 53\<close> periods a call need not return
  at all: \<open>no_resources_long_horizon\<close>.)
\<close>

theorem horizon_too_long_raises:
  "optimizeResourceAllocation
     [\<lparr>task_id = ''a'', task_name = ''A'', duration = 1, requiredResources = [],
       prerequisites = [''b''], priority = 1\<rparr>,
      \<lparr>task_id = ''b'', task_name = ''B'', duration = 1, requiredResources = [],
       prerequisites = [''a''], priority = 1\<rparr>]
     [\<lparr>res_id = ''r'', res_name = ''R'', res_type = ''General'', maxCapacity = 1,
       hourlyRate = 50, availability = [1]\<rparr>] (Some 4294967296)
   = Some (Inl RangeError)"
  by (simp add: optimizeResourceAllocation_def initUtilization_def orDefault_def)

text \<open>
  C6, amended. For every task list, with cycles or unknown ids among the prerequisites,
  every resource list and every horizon of fewer than \<open>2 ^ 32\<close> periods (the default is 100):
  the recursion of \<open>visit\<close> terminates on the call made by \<open>topologicalSort\<close> (the input is
  in the domain of the recursion), the sorted list holds tasks of the input, and
  \<open>optimizeResourceAllocation\<close> returns a result without raising; each sorted task
  contributes one schedule entry or one conflict.
\<close>

theorem optimizeResourceAllocation_terminates:
  assumes "orDefault projectDeadline 100 < 2 ^ 32"
  shows "visit_visit_each_dom
     (Inr (tasks, map task_id tasks, \<lparr>visited = {}, visiting = {}, result = []\<rparr>)) \<and>
   (\<exists>res. optimizeResourceAllocation tasks resources projectDeadline = Some (Inr res) \<and>
      length (schedule res) + length (conflicts res) = length (topologicalSort tasks) \<and>
      length (topologicalSort tasks) \<le> length tasks)"
proof -
  have "visit_visit_each_dom
     (Inr (tasks, map task_id tasks, \<lparr>visited = {}, visiting = {}, result = []\<rparr>))"
    using visit_total by (rule spec)
  moreover obtain res where
    "optimizeResourceAllocation tasks resources projectDeadline = Some (Inr res)"
    "length (schedule res) + length (conflicts res) = length (topologicalSort tasks)"
    using optimizeResourceAllocation_no_error[OF assms] by blast
  ultimately show ?thesis
    using topologicalSort_length by blast
qed

theorem optimizeResourceAllocation_terminates_witness:
  "orDefault (Some 5) 100 < 2 ^ 32 \<and>
   visit_visit_each_dom
     (Inr ([\<lparr>task_id = ''a'', task_name = ''A'', duration = 1, requiredResources = [],
              prerequisites = [''b''], priority = 1\<rparr>,
            \<lparr>task_id = ''b'', task_name = ''B'', duration = 1, requiredResources = [],
              prerequisites = [''a''], priority = 1\<rparr>],
           [''a'', ''b''], \<lparr>visited = {}, visiting = {}, result = []\<rparr>)) \<and>
   (\<exists>res. optimizeResourceAllocation
       [\<lparr>task_id = ''a'', task_name = ''A'', duration = 1, requiredResources = [],
         prerequisites = [''b''], priority = 1\<rparr>,
        \<lparr>task_id = ''b'', task_name = ''B'', duration = 1, requiredResources = [],
         prerequisites = [''a''], priority = 1\<rparr>]
       [\<lparr>res_id = ''r'', res_name = ''R'', res_type = ''General'', maxCapacity = 1,
         hourlyRate = 50, availability = [1]\<rparr>] (Some 5) = Some (Inr res) \<and>
      length (schedule res) + length (conflicts res) = 2)"
proof -
  let ?A = "\<lparr>task_id = ''a'', task_name = ''A'', duration = 1, requiredResources = [],
             prerequisites = [''b''], priority = (1::real)\<rparr>"
  let ?B = "\<lparr>task_id = ''b'', task_name = ''B'', duration = 1, requiredResources = [],
             prerequisites = [''a''], priority = (1::real)\<rparr>"
  have h: "orDefault (Some 5) 100 < 2 ^ 32" by (simp add: orDefault_def)
  have sorted: "topologicalSort [?A, ?B] = [?B, ?A]" by code_simp
  let ?R = "\<lparr>res_id = ''r'', res_name = ''R'', res_type = ''General'', maxCapacity = 1,
             hourlyRate = 50, availability = [1]\<rparr>"
  have len: "length [?B, ?A] = 2" by simp
  note run = optimizeResourceAllocation_terminates[OF h, of "[?A, ?B]" "[?R]",
      unfolded sorted len]
  have ids: "map task_id [?A, ?B] = [''a'', ''b'']" by simp
  from run h show ?thesis unfolding ids by blast
qed


section \<open>Regression estimator: the claim\<close>



section \<open>Rounding to a double\<close>

lemma bitlen_nonneg: "0 \<le> bitlen n"
proof (induction n rule: bitlen.induct)
  case (1 n)
  then show ?case by (cases "n \<le> 0") (simp_all add: bitlen.simps[of n])
qed

lemma bitlen_pos: "0 < n \<Longrightarrow> 0 < bitlen n"
  using bitlen_nonneg[of "n div 2"] by (simp add: bitlen.simps[of n])

lemma bitlen_bounds:
  "0 < n \<Longrightarrow> 2 ^ nat (bitlen n - 1) \<le> n \<and> n < 2 ^ nat (bitlen n)"
proof (induction n rule: bitlen.induct)
  case (1 n)
  show ?case
  proof (cases "n = 1")
    case True
    then show ?thesis by (simp add: bitlen.simps[of 1] bitlen.simps[of 0])
  next
    case False
    with 1(2) have half: "0 < n div 2" by simp
    from 1(1)[OF _ half] 1(2)
    have ih: "2 ^ nat (bitlen (n div 2) - 1) \<le> n div 2" "n div 2 < 2 ^ nat (bitlen (n div 2))"
      by simp_all
    have bl: "bitlen n = 1 + bitlen (n div 2)" using 1(2) by (simp add: bitlen.simps[of n])
    have bp: "0 < bitlen (n div 2)" using half by (rule bitlen_pos)
    have e1: "nat (bitlen n - 1) = Suc (nat (bitlen (n div 2) - 1))"
      using bl bp by simp
    have e2: "nat (bitlen n) = Suc (nat (bitlen (n div 2)))"
      using bl bp by simp
    have "2 * 2 ^ nat (bitlen (n div 2) - 1) \<le> n"
      using ih(1) by linarith
    moreover have "n < 2 * 2 ^ nat (bitlen (n div 2))"
      using ih(2) by linarith
    ultimately show ?thesis by (simp add: e1 e2)
  qed
qed

lemma bitlen_bounds_rat:
  assumes "0 < n"
  shows "2 powi (bitlen n - 1) \<le> (of_int n :: rat)" "(of_int n :: rat) < 2 powi (bitlen n)"
proof -
  from bitlen_bounds[OF assms] have b: "2 ^ nat (bitlen n - 1) \<le> n" "n < 2 ^ nat (bitlen n)"
    by simp_all
  have pos: "0 \<le> bitlen n - 1" "0 \<le> bitlen n"
    using bitlen_pos[OF assms] by simp_all
  have "(2::rat) powi (bitlen n - 1) = of_int (2 ^ nat (bitlen n - 1))"
    by (simp add: power_int_nonneg_exp[OF pos(1)])
  also have "\<dots> \<le> of_int n" using b(1) by (simp only: of_int_le_iff)
  finally show "2 powi (bitlen n - 1) \<le> (of_int n :: rat)" .
  have "(of_int n :: rat) < of_int (2 ^ nat (bitlen n))"
    using b(2) by (simp only: of_int_less_iff)
  also have "\<dots> = 2 powi (bitlen n)"
    by (simp add: power_int_nonneg_exp[OF pos(2)])
  finally show "(of_int n :: rat) < 2 powi (bitlen n)" .
qed

lemma ilog2_bounds:
  assumes "0 < z"
  shows "2 powi (ilog2 z) \<le> z" "z < 2 powi (ilog2 z + 1)"
proof -
  obtain p q where pq: "quotient_of z = (p, q)" by (cases "quotient_of z") auto
  have q: "0 < q" using pq by (rule quotient_of_denom_pos)
  have z: "z = of_int p / of_int q" using pq by (rule quotient_of_div)
  have p: "0 < p"
    using assms q unfolding z by (simp add: zero_less_divide_iff)
  define k where "k = bitlen p - bitlen q"
  have il: "ilog2 z = (if 2 powi k \<le> z then k else k - 1)"
    by (simp add: ilog2_def pq k_def Let_def)
  have two: "(0::rat) < 2 powi n" for n by simp
  have lower: "2 powi (k - 1) < z"
  proof -
    have "2 powi (k - 1) = (2::rat) powi (bitlen p - 1) / 2 powi (bitlen q)"
      unfolding k_def by (simp flip: power_int_diff) (simp add: algebra_simps)
    also have "\<dots> \<le> of_int p / 2 powi (bitlen q)"
      using bitlen_bounds_rat(1)[OF p] by (simp add: divide_right_mono)
    also have "\<dots> < of_int p / of_int q"
      using bitlen_bounds_rat(2)[OF q] p q by (simp add: divide_strict_left_mono)
    finally show ?thesis by (simp add: z)
  qed
  have upper: "z < 2 powi (k + 1)"
  proof -
    have "z < 2 powi (bitlen p) / of_int q"
      unfolding z using bitlen_bounds_rat(2)[OF p] q by (simp add: divide_strict_right_mono)
    also have "\<dots> \<le> 2 powi (bitlen p) / 2 powi (bitlen q - 1)"
      using bitlen_bounds_rat(1)[OF q] by (intro frac_le) simp_all
    also have "\<dots> = 2 powi (k + 1)"
      unfolding k_def by (simp flip: power_int_diff) (simp add: algebra_simps)
    finally show ?thesis .
  qed
  show "2 powi (ilog2 z) \<le> z"
    using lower by (simp add: il)
  show "z < 2 powi (ilog2 z + 1)"
    using upper by (auto simp: il not_le)
qed

lemma ilog2_less:
  assumes "0 < z" "z < 2 powi k"
  shows "ilog2 z < k"
proof (rule ccontr)
  assume "\<not> ilog2 z < k"
  then have "k \<le> ilog2 z" by simp
  then have "(2::rat) powi k \<le> 2 powi (ilog2 z)"
    by (intro power_int_increasing) simp_all
  with ilog2_bounds(1)[OF assms(1)] assms(2) show False by simp
qed

lemma ilog2_zero: "ilog2 0 = - 2"
  by (simp add: ilog2_def bitlen.simps[of 0] bitlen.simps[of 1])

lemma roundHalfEven_error: "\<bar>of_int (roundHalfEven r) - r\<bar> \<le> 1 / 2"
proof -
  define d where "d = r - of_int \<lfloor>r\<rfloor>"
  have d: "0 \<le> d" "d < 1" unfolding d_def by linarith+
  have r: "r = of_int \<lfloor>r\<rfloor> + d" by (simp add: d_def)
  consider "d < 1 / 2" | "1 / 2 < d" | "d = 1 / 2" by linarith
  then show ?thesis
  proof cases
    case 1
    then have "of_int (roundHalfEven r) - r = - d"
      by (simp add: roundHalfEven_def Let_def d_def)
    with d 1 show ?thesis by simp
  next
    case 2
    then have "of_int (roundHalfEven r) - r = 1 - d"
      by (simp add: roundHalfEven_def Let_def d_def)
    with d 2 show ?thesis by simp
  next
    case 3
    then have "of_int (roundHalfEven r) - r = - d \<or> of_int (roundHalfEven r) - r = 1 - d"
      by (simp add: roundHalfEven_def Let_def d_def)
    with 3 show ?thesis by auto
  qed
qed

lemma ilog2_ge:
  assumes "0 < z" "2 powi j \<le> z"
  shows "j \<le> ilog2 z"
proof (rule ccontr)
  assume "\<not> j \<le> ilog2 z"
  then have "ilog2 z + 1 \<le> j" by simp
  then have "(2::rat) powi (ilog2 z + 1) \<le> 2 powi j"
    by (intro power_int_increasing) simp_all
  with ilog2_bounds(2)[OF assms(1)] assms(2) show False by simp
qed

lemma round_double_value:
  assumes "\<bar>x\<bar> < 2 powi k" "k \<le> 1023" "x \<noteq> 0"
  shows "round_double x
           = Fin (of_int (roundHalfEven (x / 2 powi (ulpExponent x))) * 2 powi (ulpExponent x))
         \<and> \<bar>of_int (roundHalfEven (x / 2 powi (ulpExponent x))) * 2 powi (ulpExponent x) - x\<bar>
             \<le> 2 powi (ulpExponent x - 1)"
proof -
  note False = assms(3)
  define e where "e = ulpExponent x"
  define y where "y = of_int (roundHalfEven (x / 2 powi e)) * (2::rat) powi e"
  define M :: int where "M = 1024"
  have pe: "(0::rat) < 2 powi e" by simp
  have "y - x = (of_int (roundHalfEven (x / 2 powi e)) - x / 2 powi e) * 2 powi e"
    by (simp add: y_def algebra_simps)
  then have "\<bar>y - x\<bar> = \<bar>of_int (roundHalfEven (x / 2 powi e)) - x / 2 powi e\<bar> * 2 powi e"
    by (simp add: abs_mult)
  also have "\<dots> \<le> 1 / 2 * 2 powi e"
    using roundHalfEven_error[of "x / 2 powi e"] by (intro mult_right_mono) simp_all
  also have "\<dots> = 2 powi (e - 1)"
    by (simp add: power_int_diff)
  finally have err: "\<bar>y - x\<bar> \<le> 2 powi (e - 1)" .
  have il: "ilog2 \<bar>x\<bar> < k"
    using False assms(1) by (intro ilog2_less) simp_all
  have "e - 1 \<le> M - 1"
    using il assms(2) by (simp add: e_def ulpExponent_def M_def)
  then have p1: "(2::rat) powi (e - 1) \<le> 2 powi (M - 1)"
    by (intro power_int_increasing) simp_all
  have "k \<le> M - 1" using assms(2) by (simp add: M_def)
  then have p2: "(2::rat) powi k \<le> 2 powi (M - 1)"
    by (intro power_int_increasing) simp_all
  have "\<bar>y\<bar> \<le> \<bar>x\<bar> + \<bar>y - x\<bar>" by simp
  also have "\<dots> < 2 powi (M - 1) + 2 powi (M - 1)"
    using assms(1) err p1 p2 by linarith
  also have "\<dots> = 2 powi M"
    by (simp add: power_int_diff)
  finally have ylt: "\<bar>y\<bar> < 2 powi M" .
  have "ilog2 \<bar>y\<bar> < M"
  proof (cases "y = 0")
    case True
    then show ?thesis by (simp add: ilog2_zero M_def)
  next
    case False
    then show ?thesis using ylt by (intro ilog2_less) simp_all
  qed
  then have "\<not> 1024 \<le> ilog2 \<bar>y\<bar>" by (simp add: M_def)
  then have "round_double x = Fin y"
    using False by (simp add: round_double_def Let_def e_def[symmetric] y_def[symmetric])
  with err show ?thesis by (simp add: e_def y_def)
qed




lemma roundHalfEven_of_int: "roundHalfEven (of_int m) = m"
  by (simp add: roundHalfEven_def)

lemma round_double_of_nat:
  assumes "n < 2 ^ 53"
  shows "round_double (of_nat n) = Fin (of_nat n)"
proof (cases "n = 0")
  case True
  then show ?thesis by (simp add: round_double_def)
next
  case False
  define x :: rat where "x = of_nat n"
  have x: "0 < x" "x \<noteq> 0" "\<bar>x\<bar> = x" using False by (simp_all add: x_def)
  have "x < of_nat (2 ^ 53)" unfolding x_def using assms by (simp only: of_nat_less_iff)
  then have lt: "x < 2 powi 53" by simp
  have "(2::rat) powi 0 \<le> x" using False by (simp add: x_def)
  with x(1) have lo: "0 \<le> ilog2 x" by (rule ilog2_ge)
  have hi: "ilog2 x < 53" using x(1) lt by (rule ilog2_less)
  define e where "e = ulpExponent x"
  have e: "e = ilog2 x - 52" "e \<le> 0"
    using lo hi x(3) by (simp_all add: e_def ulpExponent_def)
  have "x / 2 powi e = x * 2 powi (- e)"
    by (simp add: power_int_minus field_simps)
  also have "\<dots> = of_int (int n * 2 ^ nat (- e))"
    using e(2) by (simp add: x_def power_int_def)
  finally have q: "x / 2 powi e = of_int (int n * 2 ^ nat (- e))" .
  have "of_int (roundHalfEven (x / 2 powi e)) * 2 powi e = x / 2 powi e * 2 powi e"
    unfolding q roundHalfEven_of_int by (rule refl)
  also have "\<dots> = x" by simp
  finally have "of_int (roundHalfEven (x / 2 powi e)) * 2 powi e = x" .
  moreover have "\<bar>x\<bar> < 2 powi 53" using lt x(3) by simp
  ultimately show ?thesis
    using round_double_value[of x 53, OF _ _ x(2)] by (simp add: e_def x_def)
qed

lemma round_double_zero: "round_double 0 = Fin 0"
  by (simp add: round_double_def)

text \<open>
  The nearest integer, and with it the rounded double, is determined by a bound on the
  distance: \<open>round_double x\<close> is \<open>m * 2 powi (k - 52)\<close> when \<open>k\<close> is the binary exponent of \<open>x\<close>
  and \<open>m\<close> is within half a unit of \<open>x / 2 powi (k - 52)\<close>, a tie going to an even \<open>m\<close>. This
  evaluates a rounding from the two numbers \<open>k\<close> and \<open>m\<close>.
\<close>

lemma roundHalfEven_nearest:
  assumes "\<bar>of_int m - r\<bar> < 1 / 2"
  shows "roundHalfEven r = m"
proof -
  define f where "f = \<lfloor>r\<rfloor>"
  define d where "d = r - of_int f"
  have d: "0 \<le> d" "d < 1" unfolding d_def f_def by linarith+
  have r: "r = of_int f + d" by (simp add: d_def)
  from assms have lo: "of_int f + d - 1 / 2 < (of_int m :: rat)"
    and hi: "(of_int m :: rat) < of_int f + d + 1 / 2"
    unfolding r by linarith+
  show ?thesis
  proof (cases "d < 1 / 2")
    case True
    from lo d(1) have "(of_int f :: rat) - 1 < of_int m" by linarith
    then have "f - 1 < m" by (metis of_int_1 of_int_diff of_int_less_iff)
    moreover from hi True have "(of_int m :: rat) < of_int f + 1" by linarith
    then have "m < f + 1" by (metis of_int_1 of_int_add of_int_less_iff)
    ultimately have "m = f" by simp
    with True show ?thesis by (simp add: roundHalfEven_def f_def d_def Let_def)
  next
    case False
    with lo have "(of_int f :: rat) < of_int m" by linarith
    then have "f < m" by (simp only: of_int_less_iff)
    moreover from hi d(2) have "(of_int m :: rat) < of_int f + 2" by linarith
    then have "m < f + 2" by (metis of_int_numeral of_int_add of_int_less_iff)
    ultimately have m: "m = f + 1" by simp
    have "d \<noteq> 1 / 2"
    proof
      assume "d = 1 / 2"
      with hi m show False by simp
    qed
    with False have "1 / 2 < d" by simp
    with False m show ?thesis by (simp add: roundHalfEven_def f_def d_def Let_def)
  qed
qed



lemma roundHalfEven_neg: "roundHalfEven (- r) = - roundHalfEven r"
proof -
  have "\<bar>of_int (roundHalfEven r) - r\<bar> \<le> 1 / 2" by (rule roundHalfEven_error)
  show ?thesis
  proof (cases "\<bar>of_int (roundHalfEven r) - r\<bar> < 1 / 2")
    case True
    have eq: "of_int (- roundHalfEven r) - (- r) = - (of_int (roundHalfEven r) - r)"
      by simp
    have "\<bar>of_int (- roundHalfEven r) - (- r)\<bar> < 1 / 2"
      unfolding eq abs_minus_cancel by (rule True)
    then show ?thesis by (rule roundHalfEven_nearest)
  next
    case False
    define f where "f = \<lfloor>r\<rfloor>"
    define d where "d = r - of_int f"
    have d: "0 \<le> d" "d < 1" unfolding d_def f_def by linarith+
    have half: "d = 1 / 2"
    proof (rule ccontr)
      assume "d \<noteq> 1 / 2"
      then consider "d < 1 / 2" | "1 / 2 < d" by linarith
      then show False
      proof cases
        case 1
        then have "roundHalfEven r = f" by (simp add: roundHalfEven_def f_def d_def Let_def)
        with 1 d False show False by (simp add: d_def)
      next
        case 2
        then have "roundHalfEven r = f + 1" by (simp add: roundHalfEven_def f_def d_def Let_def)
        with 2 d False show False by (simp add: d_def abs_if split: if_splits)
      qed
    qed
    have r: "r = of_int f + 1 / 2" using half by (simp add: d_def)
    have fl: "\<lfloor>- r\<rfloor> = - f - 1" unfolding r by linarith
    have dn: "- r - of_int (- f - 1) = 1 / 2" unfolding r by simp
    have dr: "r - of_int \<lfloor>r\<rfloor> = 1 / 2" using half by (simp add: d_def f_def)
    have "roundHalfEven r = (if even f then f else f + 1)"
      unfolding roundHalfEven_def Let_def dr by (simp add: f_def)
    moreover have "roundHalfEven (- r) = (if even (- f - 1) then - f - 1 else - f - 1 + 1)"
      unfolding roundHalfEven_def fl Let_def dn by simp
    ultimately show ?thesis by simp
  qed
qed

lemma round_double_neg: "round_double (- x) = dneg (round_double x)"
proof (cases "x = 0")
  case True
  then show ?thesis by (simp add: round_double_def)
next
  case False
  have e: "ulpExponent (- x) = ulpExponent x" by (simp add: ulpExponent_def)
  have "roundHalfEven (- x / 2 powi ulpExponent x) = - roundHalfEven (x / 2 powi ulpExponent x)"
    using roundHalfEven_neg[of "x / 2 powi ulpExponent x"] by simp
  with False show ?thesis
    by (simp add: round_double_def e Let_def)
qed

lemma round_double_overflow:
  assumes "2 powi 1024 \<le> x"
  shows "round_double x = DPInf"
proof -
  have "(0::rat) < 2 powi 1024" by simp
  then have x: "0 < x" using assms by (rule less_le_trans)
  then have ax: "\<bar>x\<bar> = x" by simp
  define k where "k = ilog2 x"
  have k: "1024 \<le> k" unfolding k_def using x assms by (rule ilog2_ge)
  have lo: "2 powi k \<le> x" unfolding k_def using x by (rule ilog2_bounds)
  define e where "e = k - 52"
  have e: "ulpExponent x = e" using k by (simp add: ulpExponent_def ax k_def e_def)
  define m where "m = roundHalfEven (x / 2 powi e)"
  have "2 powi k / 2 powi e \<le> x / 2 powi e"
    using lo by (intro divide_right_mono) simp_all
  moreover have "(2::rat) powi k / 2 powi e = 2 powi 52"
    using power_int_diff[of "2::rat" k e] by (simp add: e_def)
  ultimately have q: "2 powi 52 \<le> x / 2 powi e" by simp
  have "\<bar>of_int m - x / 2 powi e\<bar> \<le> 1 / 2" unfolding m_def by (rule roundHalfEven_error)
  with q have "(2::rat) powi 52 - 1 / 2 \<le> of_int m" by linarith
  then have "(of_int (2 ^ 52 - 1) :: rat) < of_int m" by simp
  then have "2 ^ 52 - 1 < m" by (simp only: of_int_less_iff)
  then have "(2::int) ^ 52 \<le> m" by simp
  then have "(of_int (2 ^ 52) :: rat) \<le> of_int m" by (simp only: of_int_le_iff)
  then have m: "(2::rat) powi 52 \<le> of_int m" by simp
  define y :: rat where "y = of_int m * 2 powi e"
  have "2 powi 52 * 2 powi e \<le> y"
    unfolding y_def using m by (intro mult_right_mono) simp_all
  moreover have "(2::rat) powi 52 * 2 powi e = 2 powi k"
    using power_int_add[of "2::rat" 52 e] by (simp add: e_def)
  ultimately have yk: "2 powi k \<le> y" by simp
  have "(2::rat) powi 1024 \<le> 2 powi k" using k by (intro power_int_increasing) simp_all
  with yk have big: "2 powi 1024 \<le> y" by simp
  have "(0::rat) < 2 powi 1024" by simp
  then have ypos: "0 < y" using big by (rule less_le_trans)
  then have "1024 \<le> ilog2 y" using big by (rule ilog2_ge)
  then have "1024 \<le> ilog2 \<bar>y\<bar>" using ypos by simp
  then show ?thesis
    using x unfolding round_double_def e Let_def m_def[symmetric] y_def[symmetric] by simp
qed

lemma small_integers:
  "round_double 1 = Fin 1" "round_double 2 = Fin 2" "round_double 3 = Fin 3"
  "round_double 4 = Fin 4" "round_double 5 = Fin 5" "round_double 6 = Fin 6"
  "round_double 8 = Fin 8" "round_double 9 = Fin 9" "round_double 12 = Fin 12"
  "round_double 20 = Fin 20" "round_double 24 = Fin 24" "round_double 30 = Fin 30"
  using round_double_of_nat[of 1] round_double_of_nat[of 2] round_double_of_nat[of 3]
    round_double_of_nat[of 4] round_double_of_nat[of 5] round_double_of_nat[of 6]
    round_double_of_nat[of 8] round_double_of_nat[of 9] round_double_of_nat[of 12]
    round_double_of_nat[of 20] round_double_of_nat[of 24] round_double_of_nat[of 30]
  by simp_all

section \<open>Monte Carlo simulation: the claim\<close>














section \<open>Net present value and internal rate of return: the claim\<close>








subsection \<open>The run on an investment of 3e17 with one cash flow of 4.5e17\<close>





























section \<open>Delphi estimation: the claim\<close>

lemma delphi_total_zero:
  assumes "\<forall>e \<in> set estimates. confidence e = Fin 0"
  shows "fold (\<lambda>est sum. dadd sum (confidence est)) estimates (Fin 0) = Fin 0"
  using assms by (induction estimates) (simp_all add: round_double_zero)

lemma delphi_weighted_zero:
  assumes "\<forall>e \<in> set estimates. confidence e = Fin 0" and "acc = Fin 0 \<or> acc = DNaN"
  shows "fold (\<lambda>(p, est) sum. dadd sum (dmul p (confidence est))) (zip ps estimates) acc
         \<in> {Fin 0, DNaN}"
  using assms
proof (induction estimates arbitrary: ps acc)
  case Nil
  then show ?case by auto
next
  case (Cons e es)
  show ?case
  proof (cases ps)
    case Nil
    with Cons.prems show ?thesis by auto
  next
    case (Cons p ps')
    have "dmul p (Fin 0) = Fin 0 \<or> dmul p (Fin 0) = DNaN"
      by (cases p) (simp_all add: round_double_zero)
    with Cons.prems(2) have "dadd acc (dmul p (Fin 0)) = Fin 0 \<or> dadd acc (dmul p (Fin 0)) = DNaN"
      by (auto simp: round_double_zero)
    with Cons.prems(1) Cons.IH[of "dadd acc (dmul p (Fin 0))" ps'] Cons show ?thesis
      by simp
  qed
qed

text \<open>
  With the estimates 1e308 of one expert (a finite number, at least \<open>2 powi 1022\<close>) the sum
  \<^verbatim>\<open>optimistic + 4 * mostLikely\<close> overflows: \<open>pert\<close> is \<^verbatim>\<open>Infinity\<close> and \<open>consensus\<close> is \<^verbatim>\<open>NaN\<close>,
  whatever the confidence.
\<close>

lemma delphi_overflow:
  assumes "2 powi 1022 \<le> x"
  shows "pert (calculateDelphiEstimation
           [\<lparr>expertId = n, optimistic = Fin x, mostLikely = Fin x, pessimistic = Fin x,
             confidence = c\<rparr>]) = DPInf"
    and "consensus (calculateDelphiEstimation
           [\<lparr>expertId = n, optimistic = Fin x, mostLikely = Fin x, pessimistic = Fin x,
             confidence = c\<rparr>]) = DNaN"
proof -
  have "(2::rat) powi 1024 = 4 * 2 powi 1022"
    using power_int_add[of "2::rat" 2 1022] by simp
  then have "2 powi 1024 \<le> 4 * x" using assms by simp
  then have "round_double (4 * x) = DPInf" by (rule round_double_overflow)
  then have p: "pertEstimate \<lparr>expertId = n, optimistic = Fin x, mostLikely = Fin x,
                   pessimistic = Fin x, confidence = c\<rparr> = DPInf"
    by (simp add: pertEstimate_def lit_def small_integers dinf_def)
  show "pert (calculateDelphiEstimation
           [\<lparr>expertId = n, optimistic = Fin x, mostLikely = Fin x, pessimistic = Fin x,
             confidence = c\<rparr>]) = DPInf"
    by (simp add: calculateDelphiEstimation_def Let_def p lit_def small_integers
        round_double_zero dinf_def)
  show "consensus (calculateDelphiEstimation
           [\<lparr>expertId = n, optimistic = Fin x, mostLikely = Fin x, pessimistic = Fin x,
             confidence = c\<rparr>]) = DNaN"
    by (simp add: calculateDelphiEstimation_def Let_def p lit_def small_integers
        round_double_zero dinf_def dsub_def mathMax_def mathMin_def numeral_2_eq_2)
qed

text \<open>
  C10, as stated, has \<^verbatim>\<open>NaN\<close> for \<open>finalEstimate\<close> and \<open>confidenceWeightedAverage\<close> whenever the
  confidences sum to 0, with finite \<open>pert\<close> and \<open>consensus\<close>. Two experts with the confidences
  1 and \<open>- 1\<close> have the sum 0; their PERT estimates are 2 and 5, the weighted sum is \<open>- 3\<close>
  and its quotient by 0 is \<^verbatim>\<open>-Infinity\<close>.
\<close>

theorem delphi_opposite_confidences:
  "finalEstimate (calculateDelphiEstimation
     [\<lparr>expertId = ''Expert 1'', optimistic = Fin 1, mostLikely = Fin 2, pessimistic = Fin 3,
       confidence = Fin 1\<rparr>,
      \<lparr>expertId = ''Expert 2'', optimistic = Fin 4, mostLikely = Fin 5, pessimistic = Fin 6,
       confidence = Fin (- 1)\<rparr>]) = DNInf \<and>
   confidenceWeightedAverage (calculateDelphiEstimation
     [\<lparr>expertId = ''Expert 1'', optimistic = Fin 1, mostLikely = Fin 2, pessimistic = Fin 3,
       confidence = Fin 1\<rparr>,
      \<lparr>expertId = ''Expert 2'', optimistic = Fin 4, mostLikely = Fin 5, pessimistic = Fin 6,
       confidence = Fin (- 1)\<rparr>]) = DNInf"
  by (simp add: calculateDelphiEstimation_def pertEstimate_def lit_def Let_def small_integers
      round_double_neg round_double_zero dinf_def)

text \<open>
  C10, amended. For a non-empty list of expert estimates whose confidences are all 0 (with
  confidences in \<open>[0, 1]\<close>, as the data model has them, the only way for the sum to be 0),
  \<open>finalEstimate\<close> and \<open>confidenceWeightedAverage\<close> are \<^verbatim>\<open>NaN\<close>: the weighted sum is 0, or
  \<^verbatim>\<open>NaN\<close> when a PERT estimate has overflowed, and it is divided by 0. Nothing is said of
  \<open>pert\<close> and \<open>consensus\<close>, which need not be finite (\<open>delphi_overflow\<close>). The function has no
  raising branch.
\<close>

theorem delphi_all_confidences_zero:
  assumes "estimates \<noteq> []"
    and "\<forall>e \<in> set estimates. confidence e = Fin 0"
  shows "finalEstimate (calculateDelphiEstimation estimates) = DNaN \<and>
         confidenceWeightedAverage (calculateDelphiEstimation estimates) = DNaN"
proof -
  have total: "fold (\<lambda>est sum. dadd sum (confidence est)) estimates (lit 0) = Fin 0"
    using delphi_total_zero[OF assms(2)] by (simp add: lit_def round_double_zero)
  have "fold (\<lambda>(p, est) sum. dadd sum (dmul p (confidence est)))
          (zip (map pertEstimate estimates) estimates) (lit 0) \<in> {Fin 0, DNaN}"
    using delphi_weighted_zero[OF assms(2), of "Fin 0"] by (simp add: lit_def round_double_zero)
  then have "ddiv (fold (\<lambda>(p, est) sum. dadd sum (dmul p (confidence est)))
                     (zip (map pertEstimate estimates) estimates) (lit 0))
                  (fold (\<lambda>est sum. dadd sum (confidence est)) estimates (lit 0)) = DNaN"
    unfolding total by auto
  then show ?thesis
    using assms(1) by (simp add: calculateDelphiEstimation_def Let_def)
qed

theorem delphi_all_confidences_zero_witness:
  "finalEstimate (calculateDelphiEstimation
     [\<lparr>expertId = ''Expert 1'', optimistic = Fin 80, mostLikely = Fin 100,
       pessimistic = Fin 140, confidence = Fin 0\<rparr>]) = DNaN \<and>
   confidenceWeightedAverage (calculateDelphiEstimation
     [\<lparr>expertId = ''Expert 1'', optimistic = Fin 80, mostLikely = Fin 100,
       pessimistic = Fin 140, confidence = Fin 0\<rparr>]) = DNaN"
proof -
  let ?es = "[\<lparr>expertId = ''Expert 1'', optimistic = Fin 80, mostLikely = Fin 100,
               pessimistic = Fin 140, confidence = Fin 0\<rparr>]"
  have h1: "?es \<noteq> []" by simp
  have h2: "\<forall>e \<in> set ?es. confidence e = Fin 0" by simp
  from delphi_all_confidences_zero[OF h1 h2] show ?thesis .
qed

end
